theory Spec2Isabelle
  imports Main "HOL-Library.AList" "HOL-Library.List_Lexorder" "HOL-Library.Code_Target_Nat"
begin

section \<open>JavaScript strings\<close>

text \<open>
  A JavaScript string is a sequence of UTF-16 code units. A code unit is modelled as a
  natural number (the values of real strings are below 65536). The order \<open><\<close> on lists of
  code units is the lexicographic one, which is the order \<open>Array.prototype.sort()\<close> uses when
  it is called without a comparator.
\<close>

type_synonym jsstring = "nat list"

definition js :: "string \<Rightarrow> jsstring" where
  "js s = map of_char s"

abbreviation (input) LF :: nat where "LF \<equiv> 10"
abbreviation (input) DQUOTE :: nat where "DQUOTE \<equiv> 34"
abbreviation (input) SQUOTE :: nat where "SQUOTE \<equiv> 39"
abbreviation (input) COMMA :: nat where "COMMA \<equiv> 44"
abbreviation (input) MINUS :: nat where "MINUS \<equiv> 45"
abbreviation (input) SLASH :: nat where "SLASH \<equiv> 47"
abbreviation (input) ZERO :: nat where "ZERO \<equiv> 48"
abbreviation (input) SEMICOLON :: nat where "SEMICOLON \<equiv> 59"

text \<open>The code points that \<open>String.prototype.trim\<close> strips (WhiteSpace and LineTerminator).\<close>

definition isWhiteSpace :: "nat \<Rightarrow> bool" where
  "isWhiteSpace c \<longleftrightarrow>
     c = 9 \<or> c = 10 \<or> c = 11 \<or> c = 12 \<or> c = 13 \<or> c = 32 \<or> c = 160 \<or> c = 5760 \<or>
     (8192 \<le> c \<and> c \<le> 8202) \<or> c = 8232 \<or> c = 8233 \<or> c = 8239 \<or> c = 8287 \<or>
     c = 12288 \<or> c = 65279"

definition trim :: "jsstring \<Rightarrow> jsstring" where
  "trim s = rev (dropWhile isWhiteSpace (rev (dropWhile isWhiteSpace s)))"

text \<open>\<open>s.split(sep)\<close> for a separator of one code unit; the result is never empty.\<close>

fun split_on :: "nat \<Rightarrow> jsstring \<Rightarrow> jsstring list" where
  "split_on sep [] = [[]]"
| "split_on sep (c # cs) =
     (if c = sep then [] # split_on sep cs
      else (case split_on sep cs of
              x # xs \<Rightarrow> (c # x) # xs
            | [] \<Rightarrow> [[c]]))"

text \<open>\<open>s.indexOf(c)\<close>; JavaScript's \<open>-1\<close> is \<open>None\<close>.\<close>

fun indexOf :: "jsstring \<Rightarrow> nat \<Rightarrow> nat option" where
  "indexOf [] c = None"
| "indexOf (x # xs) c = (if x = c then Some 0 else map_option Suc (indexOf xs c))"

definition startsWith :: "jsstring \<Rightarrow> jsstring \<Rightarrow> bool" where
  "startsWith s p \<longleftrightarrow> take (length p) s = p"

text \<open>\<open>xs.join(sep)\<close>.\<close>

fun join :: "jsstring \<Rightarrow> jsstring list \<Rightarrow> jsstring" where
  "join sep [] = []"
| "join sep [x] = x"
| "join sep (x # y # ys) = x @ sep @ join sep (y # ys)"

text \<open>\<open>String(n)\<close> for an integer \<open>n\<close>: the decimal digits, with a minus sign when negative.\<close>

fun digits :: "nat \<Rightarrow> jsstring" where
  "digits n = (if n < 10 then [ZERO + n] else digits (n div 10) @ [ZERO + n mod 10])"

declare digits.simps [simp del]

definition String_int :: "int \<Rightarrow> jsstring" where
  "String_int i = (if i < 0 then MINUS # digits (nat (- i)) else digits (nat i))"

text \<open>\<open>s.padStart(targetLength, c)\<close> for a pad string of one code unit.\<close>

definition padStart :: "jsstring \<Rightarrow> nat \<Rightarrow> nat \<Rightarrow> jsstring" where
  "padStart s targetLength c = replicate (targetLength - length s) c @ s"

section \<open>The csv-stringify library\<close>

text \<open>
  \<open>stringify(records)\<close> of \<open>csv-stringify/sync\<close> with its default options: fields are joined
  by a comma, every record ends with a line feed, and a field that holds a comma, a double
  quote or a line feed is wrapped in double quotes with its double quotes doubled.
\<close>

definition csv_field :: "jsstring \<Rightarrow> jsstring" where
  "csv_field v =
     (if COMMA \<in> set v \<or> DQUOTE \<in> set v \<or> LF \<in> set v
      then DQUOTE # concat (map (\<lambda>c. if c = DQUOTE then [DQUOTE, DQUOTE] else [c]) v) @ [DQUOTE]
      else v)"

definition stringify :: "jsstring list list \<Rightarrow> jsstring" where
  "stringify records = concat (map (\<lambda>r. join [COMMA] (map csv_field r) @ [LF]) records)"

section \<open>Dates\<close>

text \<open>
  A \<open>Date\<close> object holds a time value in milliseconds. The model keeps the local time value
  (UTC time plus the zone offset, taken as constant during a run). The getters read the
  calendar fields of the local day, computed as ECMAScript's \<open>YearFromTime\<close>,
  \<open>MonthFromTime\<close> and \<open>DateFromTime\<close> do for the proleptic Gregorian calendar.
\<close>

definition msPerDay :: int where
  "msPerDay = 86400000"

record jsdate =
  getFullYear :: int
  getMonth :: int
  getDate :: int

definition Date_of :: "int \<Rightarrow> jsdate" where
  "Date_of t =
     (let z = t div msPerDay + 719468;
          era = z div 146097;
          doe = z - era * 146097;
          yoe = (doe - doe div 1460 + doe div 36524 - doe div 146096) div 365;
          doy = doe - (365 * yoe + yoe div 4 - yoe div 100);
          mp = (5 * doy + 2) div 153;
          d = doy - (153 * mp + 2) div 5 + 1;
          m = (if mp < 10 then mp + 3 else mp - 9);
          y = yoe + era * 400 + (if m \<le> 2 then 1 else 0)
      in \<lparr>getFullYear = y, getMonth = m - 1, getDate = d\<rparr>)"

text \<open>\<open>date.setDate(date.getDate() - n)\<close> on the time value: the same local time, \<open>n\<close> days earlier.\<close>

definition setDate_back :: "int \<Rightarrow> int \<Rightarrow> int" where
  "setDate_back t n = t - n * msPerDay"

text \<open>\<open>getRocDate\<close> (index.js, lines 32-37).\<close>

definition getRocDate :: "jsdate \<Rightarrow> jsstring" where
  "getRocDate date =
     (let year = getFullYear date - 1911;
          month = padStart (String_int (getMonth date + 1)) 2 ZERO;
          day = padStart (String_int (getDate date)) 2 ZERO
      in String_int year @ [SLASH] @ month @ [SLASH] @ day)"

section \<open>The result map\<close>

text \<open>
  \<open>dataMap\<close> is a JavaScript \<open>Map\<close> from a date key to the array of CSV lines of that date.
  A \<open>Map\<close> keeps its keys in insertion order, so it is an association list; \<open>set\<close> on a
  key that is present keeps the key's position (\<open>AList.update\<close>).
\<close>

type_synonym dataMap = "(jsstring \<times> jsstring list) list"

definition Map_has :: "dataMap \<Rightarrow> jsstring \<Rightarrow> bool" where
  "Map_has m k \<longleftrightarrow> map_of m k \<noteq> None"

definition Map_set :: "dataMap \<Rightarrow> jsstring \<Rightarrow> jsstring list \<Rightarrow> dataMap" where
  "Map_set m k v = AList.update k v m"

definition Map_keys :: "dataMap \<Rightarrow> jsstring list" where
  "Map_keys m = map fst m"

text \<open>\<open>dataMap.get(k)\<close> read as an array to iterate: no lines when the key is absent.\<close>

definition Map_get :: "dataMap \<Rightarrow> jsstring \<Rightarrow> jsstring list" where
  "Map_get m k = (case map_of m k of Some ls \<Rightarrow> ls | None \<Rightarrow> [])"

text \<open>
  \<open>if (!dataMap.has(k)) dataMap.set(k, [])\<close> (lines 64-66 and 208-210) and
  \<open>dataMap.get(k).push(line)\<close> (lines 67 and 215), which the source only runs on a key
  that is present.
\<close>

definition ensure_bucket :: "dataMap \<Rightarrow> jsstring \<Rightarrow> dataMap" where
  "ensure_bucket m k = (if \<not> Map_has m k then Map_set m k [] else m)"

definition push_line :: "dataMap \<Rightarrow> jsstring \<Rightarrow> jsstring \<Rightarrow> dataMap" where
  "push_line m k line =
     (case map_of m k of Some ls \<Rightarrow> Map_set m k (ls @ [line]) | None \<Rightarrow> m)"

section \<open>Responses of the source\<close>

text \<open>
  What the crawler reads from an HTTP response through axios and cheerio: the
  \<open>set-cookie\<close> header (absent, or an array of strings), \<open>.val()\<close> of the three hidden
  inputs (\<open>undefined\<close> is \<open>None\<close>), the \<open>select\<close> elements matched by the two market
  selectors, each with the \<open>value\<close> attribute and the text of its options, and for every
  element matched by \<open>table tr\<close> the text of each \<open>td\<close> found in it.
\<close>

record response =
  set_cookie :: "jsstring list option"
  input_VIEWSTATE :: "jsstring option"
  input_VIEWSTATEGENERATOR :: "jsstring option"
  input_EVENTVALIDATION :: "jsstring option"
  select_by_name :: "(jsstring option \<times> jsstring) list list"
  select_by_id :: "(jsstring option \<times> jsstring) list list"
  table_tr :: "jsstring list list"

record market =
  m_val :: jsstring
  m_txt :: jsstring

text \<open>
  The form of one POST. The fields \<open>__EVENTTARGET\<close>, \<open>__EVENTARGUMENT\<close>, \<open>DDL_Category\<close>,
  \<open>DDL_FV_Code\<close> and \<open>btnQuery\<close> are the same constants in every request and are left out.
\<close>

record request =
  form_VIEWSTATE :: jsstring
  form_VIEWSTATEGENERATOR :: jsstring
  form_EVENTVALIDATION :: jsstring
  form_txtDate :: jsstring
  form_Market :: jsstring
  header_Cookie :: jsstring

text \<open>
  The source answers the \<open>n\<close>-th POST of a run (counted from 0); \<open>None\<close> is a rejected
  \<open>axios.post\<close> (a transport error or a status outside 2xx).
\<close>

type_synonym server = "nat \<Rightarrow> request \<Rightarrow> response option"

record session =
  cookies :: jsstring
  viewstate :: "jsstring option"
  viewstateGenerator :: "jsstring option"
  eventValidation :: "jsstring option"

text \<open>\<open>URLSearchParams.append\<close> turns its value into a string.\<close>

definition USVString :: "jsstring option \<Rightarrow> jsstring" where
  "USVString v = (case v of Some s \<Rightarrow> s | None \<Rightarrow> js ''undefined'')"

text \<open>\<open>a || b\<close> on a string or \<open>undefined\<close>: the empty string is falsy.\<close>

definition or_else :: "jsstring option \<Rightarrow> jsstring option \<Rightarrow> jsstring option" where
  "or_else a b = (case a of Some v \<Rightarrow> (if v \<noteq> [] then Some v else b) | None \<Rightarrow> b)"

text \<open>\<open>setCookie.map(c => c.split(';')[0]).join('; ')\<close> (lines 99 and 172).\<close>

definition cookie_header :: "jsstring list \<Rightarrow> jsstring" where
  "cookie_header cs = join (js ''; '') (map (\<lambda>c. hd (split_on SEMICOLON c)) cs)"

text \<open>The session read from the landing page (lines 81, 97-105).\<close>

definition initial_session :: "response \<Rightarrow> session" where
  "initial_session response =
     \<lparr>cookies = (case set_cookie response of Some cs \<Rightarrow> cookie_header cs | None \<Rightarrow> []),
      viewstate = input_VIEWSTATE response,
      viewstateGenerator = input_VIEWSTATEGENERATOR response,
      eventValidation = input_EVENTVALIDATION response\<rparr>"

text \<open>The update of the session from the response to a POST (lines 170-179).\<close>

definition refresh :: "response \<Rightarrow> session \<Rightarrow> session" where
  "refresh res s =
     \<lparr>cookies = (case set_cookie res of Some cs \<Rightarrow> cookie_header cs | None \<Rightarrow> cookies s),
      viewstate = or_else (input_VIEWSTATE res) (viewstate s),
      viewstateGenerator = or_else (input_VIEWSTATEGENERATOR res) (viewstateGenerator s),
      eventValidation = or_else (input_EVENTVALIDATION res) (eventValidation s)\<rparr>"

text \<open>The detection of the markets (lines 107-130).\<close>

definition default_markets :: "market list" where
  "default_markets =
     [\<lparr>m_val = js ''1'', m_txt = [0x7B2C, 0x4E00, 0x5E02, 0x5834]\<rparr>,
      \<lparr>m_val = js ''2'', m_txt = [0x7B2C, 0x4E8C, 0x5E02, 0x5834]\<rparr>]"

definition market_option :: "jsstring option \<times> jsstring \<Rightarrow> market option" where
  "market_option el =
     (case fst el of
        Some v \<Rightarrow> (if v \<noteq> [] \<and> v \<noteq> js ''0'' then Some \<lparr>m_val = v, m_txt = snd el\<rparr> else None)
      | None \<Rightarrow> None)"

definition detect_markets :: "response \<Rightarrow> market list" where
  "detect_markets response =
     (let marketSelect =
            (if length (select_by_name response) = 0 then select_by_id response
             else select_by_name response);
          marketOptions =
            (if length marketSelect > 0 then List.map_filter market_option (concat marketSelect)
             else [])
      in if length marketOptions = 0 then default_markets else marketOptions)"

section \<open>Extraction of the table rows\<close>

text \<open>
  The body of \<open>$('table tr').each\<close> (lines 183-202) for one \<open>tr\<close> with the texts \<open>tds\<close> of
  its cells: the row that is pushed, if any.
\<close>

definition extract_row :: "jsstring \<Rightarrow> jsstring \<Rightarrow> jsstring list \<Rightarrow> jsstring list option" where
  "extract_row rocDate market_txt tds =
     (let cols = map trim tds
      in if length cols \<ge> 8 then
           (let code = cols ! 0
            in if startsWith code (js ''FV'') then
                 Some [rocDate, market_txt, code, cols ! 1, cols ! 2, cols ! 3, cols ! 4,
                       cols ! 5, cols ! 6, cols ! 7]
               else None)
         else None)"

definition extract_rows :: "jsstring \<Rightarrow> jsstring \<Rightarrow> jsstring list list \<Rightarrow> jsstring list list" where
  "extract_rows rocDate market_txt trs = List.map_filter (extract_row rocDate market_txt) trs"

section \<open>Merging rows into the result map\<close>

text \<open>The branch \<open>if (rows.length > 0)\<close> of lines 204-219, on the map.\<close>

definition absorb :: "dataMap \<Rightarrow> jsstring \<Rightarrow> jsstring list list \<Rightarrow> dataMap" where
  "absorb dataMap rocDate rows =
     (if length rows > 0 then
        (let csvString = trim (stringify rows);
             dataMap1 = ensure_bucket dataMap rocDate;
             newLines = split_on LF csvString
         in fold (\<lambda>nl m. if trim nl \<noteq> [] then push_line m rocDate (trim nl) else m)
              newLines dataMap1)
      else dataMap)"

section \<open>Reading the existing file\<close>

text \<open>The body of the loop of lines 57-69 for one line of the file.\<close>

definition load_line :: "jsstring \<Rightarrow> dataMap \<Rightarrow> dataMap" where
  "load_line l dataMap =
     (let line = trim l
      in case indexOf line COMMA of
           Some firstComma \<Rightarrow>
             (let date = filter (\<lambda>c. c \<noteq> SQUOTE \<and> c \<noteq> DQUOTE) (take firstComma line)
              in push_line (ensure_bucket dataMap date) date line)
         | None \<Rightarrow> dataMap)"

text \<open>Lines 49-70; the file is \<open>None\<close> when it does not exist.\<close>

definition load :: "jsstring option \<Rightarrow> dataMap" where
  "load file =
     (case file of
        Some content \<Rightarrow>
          (let lines = filter (\<lambda>l. length (trim l) > 0) (split_on LF content)
           in fold load_line (drop 1 lines) [])
      | None \<Rightarrow> [])"

section \<open>The file system\<close>

text \<open>
  The part of the file system the crawler touches: whether the output directory exists,
  and the content of the output file (\<open>None\<close> when there is no such file).
\<close>

record fs =
  output_dir :: bool
  output_file :: "jsstring option"

text \<open>\<open>if (!fs.existsSync(OUTPUT_DIR)) fs.mkdirSync(OUTPUT_DIR, {recursive: true})\<close>.\<close>

definition ensure_output_dir :: "fs \<Rightarrow> fs" where
  "ensure_output_dir f = (if \<not> output_dir f then f\<lparr>output_dir := True\<rparr> else f)"

text \<open>\<open>fs.openSync(OUTPUT_FILE, 'w')\<close> creates the file or truncates it.\<close>

definition openSync_w :: "fs \<Rightarrow> fs" where
  "openSync_w f = f\<lparr>output_file := Some []\<rparr>"

text \<open>\<open>fs.writeSync(fd, s)\<close> on the descriptor just opened writes at the end of the file.\<close>

definition writeSync :: "jsstring \<Rightarrow> fs \<Rightarrow> fs" where
  "writeSync s f = f\<lparr>output_file := map_option (\<lambda>content. content @ s) (output_file f)\<rparr>"

text \<open>\<open>fs.writeFileSync(OUTPUT_FILE, s)\<close> replaces the content.\<close>

definition writeFileSync :: "jsstring \<Rightarrow> fs \<Rightarrow> fs" where
  "writeFileSync s f = f\<lparr>output_file := Some s\<rparr>"

text \<open>\<open>fs.appendFileSync(OUTPUT_FILE, s)\<close> creates the file when it is missing.\<close>

definition appendFileSync :: "jsstring \<Rightarrow> fs \<Rightarrow> fs" where
  "appendFileSync s f =
     f\<lparr>output_file := Some ((case output_file f of Some content \<Rightarrow> content | None \<Rightarrow> []) @ s)\<rparr>"

section \<open>Sorting and writing\<close>

definition headers :: "jsstring list" where
  "headers = map js [''Date'', ''Market'', ''Code'', ''Name'', ''Variety'', ''High'', ''Mid'',
                     ''Low'', ''Avg'', ''Volume'']"

text \<open>\<open>Array.from(dataMap.keys()).sort().reverse()\<close> (line 231).\<close>

definition sortedDates :: "dataMap \<Rightarrow> jsstring list" where
  "sortedDates dataMap = rev (sort (Map_keys dataMap))"

text \<open>Lines 229-244.\<close>

definition sort_and_write :: "dataMap \<Rightarrow> fs \<Rightarrow> fs" where
  "sort_and_write dataMap f =
     (let f1 = openSync_w f;
          f2 = writeSync (stringify [headers]) f1
      in fold (\<lambda>date. fold (\<lambda>line. writeSync (line @ [LF])) (Map_get dataMap date))
           (sortedDates dataMap) f2)"

section \<open>The crawl (index.js)\<close>

text \<open>
  The variables the loop of \<open>main\<close> changes, and the POSTs issued so far in the order they
  were sent.
\<close>

record crawl_state =
  dataMap :: dataMap
  session :: session
  hasNewData :: bool
  requests :: "request list"

text \<open>The form built at lines 149-159 and the \<open>Cookie\<close> header of lines 163-167.\<close>

definition formData :: "session \<Rightarrow> jsstring \<Rightarrow> market \<Rightarrow> request" where
  "formData s rocDate market =
     \<lparr>form_VIEWSTATE = USVString (viewstate s),
      form_VIEWSTATEGENERATOR = USVString (viewstateGenerator s),
      form_EVENTVALIDATION = USVString (eventValidation s),
      form_txtDate = rocDate,
      form_Market = m_val market,
      header_Cookie = cookies s\<rparr>"

text \<open>
  The body of \<open>for (const market of marketOptions)\<close> (lines 146-224). A rejected POST ends
  in the \<open>catch\<close>, which only logs.
\<close>

definition query_market :: "server \<Rightarrow> jsstring \<Rightarrow> market \<Rightarrow> crawl_state \<Rightarrow> crawl_state" where
  "query_market post rocDate market st =
     (let form = formData (session st) rocDate market;
          st1 = st\<lparr>requests := requests st @ [form]\<rparr>
      in case post (length (requests st)) form of
           None \<Rightarrow> st1
         | Some res \<Rightarrow>
             (let st2 = st1\<lparr>session := refresh res (session st1)\<rparr>;
                  rows = extract_rows rocDate (m_txt market) (table_tr res)
              in if length rows > 0 then
                   st2\<lparr>dataMap := absorb (dataMap st2) rocDate rows, hasNewData := True\<rparr>
                 else st2))"

text \<open>The loop \<open>while (currentDate >= lookbackDate)\<close> (lines 135-227).\<close>

function crawl :: "server \<Rightarrow> market list \<Rightarrow> int \<Rightarrow> int \<Rightarrow> crawl_state \<Rightarrow> crawl_state" where
  "crawl post marketOptions lookbackDate currentDate st =
     (if currentDate \<ge> lookbackDate then
        (let rocDate = getRocDate (Date_of currentDate)
         in if Map_has (dataMap st) rocDate then
              crawl post marketOptions lookbackDate (setDate_back currentDate 1) st
            else
              crawl post marketOptions lookbackDate (setDate_back currentDate 1)
                (fold (query_market post rocDate) marketOptions st))
      else st)"
  by pat_completeness auto
termination
  by (relation "measure (\<lambda>(post, marketOptions, lookbackDate, currentDate, st).
                  nat (currentDate - lookbackDate + 1))")
     (auto simp: setDate_back_def msPerDay_def)

declare crawl.simps [simp del]

text \<open>
  \<open>main\<close> of index.js, after the module's top level (lines 26-29). Its inputs are the file
  system, the local time values \<open>now0\<close> and \<open>now1\<close> of the two \<open>new Date()\<close> of lines 75
  and 77, the outcome of the initial GET (\<open>None\<close> when \<open>axios.get\<close> is rejected) and the
  source. It returns the file system it leaves and the POSTs it has sent. The politeness
  delays and the console output are not modelled.
\<close>

definition main :: "fs \<Rightarrow> int \<Rightarrow> int \<Rightarrow> response option \<Rightarrow> server \<Rightarrow> fs \<times> request list" where
  "main f0 now0 now1 initial post =
     (let f = ensure_output_dir f0;
          dataMap0 = load (output_file f);
          currentDate = now0;
          lookbackDate = setDate_back now1 14
      in case initial of
           None \<Rightarrow> (f, [])
         | Some response \<Rightarrow>
             (let marketOptions = detect_markets response;
                  st = crawl post marketOptions lookbackDate currentDate
                         \<lparr>dataMap = dataMap0, session = initial_session response,
                          hasNewData = False, requests = []\<rparr>
              in (sort_and_write (dataMap st) f, requests st)))"

section \<open>The backfill script\<close>

text \<open>
  The second crawler of the repository (src/unnamed/part_001) has no result map: it walks
  a fixed range of dates and appends the rows of every unit to the output file.
\<close>

record backfill_state =
  b_fs :: fs
  b_session :: session
  b_requests :: "request list"

text \<open>The body of its loop over the markets (part_001, lines 119-191).\<close>

definition backfill_market :: "server \<Rightarrow> jsstring \<Rightarrow> market \<Rightarrow> backfill_state \<Rightarrow> backfill_state" where
  "backfill_market post rocDate market st =
     (let form = formData (b_session st) rocDate market;
          st1 = st\<lparr>b_requests := b_requests st @ [form]\<rparr>
      in case post (length (b_requests st)) form of
           None \<Rightarrow> st1
         | Some res \<Rightarrow>
             (let st2 = st1\<lparr>b_session := refresh res (b_session st1)\<rparr>;
                  rows = extract_rows rocDate (m_txt market) (table_tr res)
              in if length rows > 0 then
                   st2\<lparr>b_fs := appendFileSync (stringify rows) (b_fs st2)\<rparr>
                 else st2))"

text \<open>The loop \<open>while (currentDate >= endDate)\<close> (part_001, lines 115-194).\<close>

function backfill :: "server \<Rightarrow> market list \<Rightarrow> int \<Rightarrow> int \<Rightarrow> backfill_state \<Rightarrow> backfill_state" where
  "backfill post marketOptions endDate currentDate st =
     (if currentDate \<ge> endDate then
        (let rocDate = getRocDate (Date_of currentDate)
         in backfill post marketOptions endDate (setDate_back currentDate 1)
              (fold (backfill_market post rocDate) marketOptions st))
      else st)"
  by pat_completeness auto
termination
  by (relation "measure (\<lambda>(post, marketOptions, endDate, currentDate, st).
                  nat (currentDate - endDate + 1))")
     (auto simp: setDate_back_def msPerDay_def)

declare backfill.simps [simp del]

text \<open>
  \<open>main\<close> of part_001. \<open>new Date('2024-11-26')\<close> and \<open>new Date('2022-01-01')\<close> are midnight
  UTC of these days; \<open>tz\<close> is the offset of the local zone in milliseconds.
\<close>

definition backfill_main :: "fs \<Rightarrow> int \<Rightarrow> response option \<Rightarrow> server \<Rightarrow> fs \<times> request list" where
  "backfill_main f0 tz initial post =
     (let f1 = ensure_output_dir f0;
          f = (if output_file f1 = None then writeFileSync (stringify [headers]) f1 else f1)
      in case initial of
           None \<Rightarrow> (f, [])
         | Some response \<Rightarrow>
             (let marketOptions = detect_markets response;
                  currentDate = 1732579200000 + tz;
                  endDate = 1640995200000 + tz;
                  st = backfill post marketOptions endDate currentDate
                         \<lparr>b_fs = f, b_session = initial_session response, b_requests = []\<rparr>
              in (b_fs st, b_requests st)))"

section \<open>The serialized rows\<close>

text \<open>
  The specification's \<open>serialize\<close>, in its words: all buckets' rows preceded by the header,
  with the buckets ordered by date key descending and the rows of a bucket in the order
  they were absorbed. The rows are given without their line ends.
\<close>

definition header_row :: jsstring where
  "header_row = js ''Date,Market,Code,Name,Variety,High,Mid,Low,Avg,Volume''"

definition spec_serialize :: "dataMap \<Rightarrow> jsstring list" where
  "spec_serialize S = header_row # concat (map (Map_get S) (rev (sort (Map_keys S))))"

section \<open>Calendar order\<close>

text \<open>
  The notions the claims about \<open>getRocDate\<close> use: a date whose month is 0 to 11 and whose
  day is 1 to 31 (what the getters of a \<open>Date\<close> return), the era year, the chronological
  order of two dates, and the number of decimal digits of an integer.
\<close>

definition valid_date :: "jsdate \<Rightarrow> bool" where
  "valid_date d \<longleftrightarrow> 0 \<le> getMonth d \<and> getMonth d \<le> 11 \<and> 1 \<le> getDate d \<and> getDate d \<le> 31"

definition era_year :: "jsdate \<Rightarrow> int" where
  "era_year d = getFullYear d - 1911"

definition earlier :: "jsdate \<Rightarrow> jsdate \<Rightarrow> bool" where
  "earlier a b \<longleftrightarrow>
     getFullYear a < getFullYear b \<or>
     (getFullYear a = getFullYear b \<and>
      (getMonth a < getMonth b \<or> (getMonth a = getMonth b \<and> getDate a < getDate b)))"

definition decimal_digits :: "int \<Rightarrow> nat" where
  "decimal_digits i = length (digits (nat \<bar>i\<bar>))"

section \<open>Stores keyed by the first field\<close>

text \<open>
  The key that reading the file gives to a line: the text before the first comma without
  its quotes. A store is keyed by the first field when its keys are distinct and every
  line of a bucket is free of line feeds, is trimmed and has the bucket's key.
\<close>

definition line_key :: "jsstring \<Rightarrow> jsstring option" where
  "line_key line =
     map_option (\<lambda>i. filter (\<lambda>c. c \<noteq> SQUOTE \<and> c \<noteq> DQUOTE) (take i line)) (indexOf line COMMA)"

definition good_line :: "jsstring \<Rightarrow> jsstring \<Rightarrow> bool" where
  "good_line k l \<longleftrightarrow> LF \<notin> set l \<and> trim l = l \<and> line_key l = Some k"

definition keyed_store :: "dataMap \<Rightarrow> bool" where
  "keyed_store S \<longleftrightarrow>
     distinct (Map_keys S) \<and> (\<forall>(k, ls) \<in> set S. \<forall>l \<in> set ls. good_line k l)"

section \<open>The days of a run, and answers with rows\<close>



text \<open>
  What one pass of the loop does for the time value \<open>t\<close>: nothing when the key of the
  day is in the map, a POST for every market otherwise.
\<close>

definition visit :: "server \<Rightarrow> market list \<Rightarrow> int \<Rightarrow> crawl_state \<Rightarrow> crawl_state" where
  "visit post marketOptions t st =
     (if Map_has (dataMap st) (getRocDate (Date_of t)) then st
      else fold (query_market post (getRocDate (Date_of t))) marketOptions st)"








section \<open>Example inputs\<close>

text \<open>
  The date 2024-11-29 (local midnight) and its key, the first default market, and the
  table row of the specification's example.
\<close>

definition ex_today :: int where
  "ex_today = 1732838400000"

definition ex_key :: jsstring where
  "ex_key = js ''113/11/29''"

definition ex_market :: market where
  "ex_market = \<lparr>m_val = js ''1'', m_txt = [0x7B2C, 0x4E00, 0x5E02, 0x5834]\<rparr>"

definition ex_tds :: "jsstring list" where
  "ex_tds = [js ''FV001'', [0x8525], [0x7C89, 0x8525], js ''100'', js ''90'', js ''80'',
             js ''88'', js ''1,234'']"

text \<open>The same row with cells that hold no number.\<close>

definition ex_tds_dash :: "jsstring list" where
  "ex_tds_dash = [js ''FV001'', [0x8525], [0x7C89, 0x8525], js ''-'', js ''-'', js ''-'',
                  js ''-'', js ''n/a'']"

text \<open>A landing page with tokens and no market selector, and an answer holding the row.\<close>

definition ex_landing :: response where
  "ex_landing =
     \<lparr>set_cookie = Some [js ''ASP.NET_SessionId=abc; path=/; HttpOnly''],
      input_VIEWSTATE = Some (js ''VS0''),
      input_VIEWSTATEGENERATOR = Some (js ''GEN0''),
      input_EVENTVALIDATION = Some (js ''EV0''),
      select_by_name = [], select_by_id = [],
      table_tr = []\<rparr>"

definition ex_answer :: response where
  "ex_answer =
     \<lparr>set_cookie = None,
      input_VIEWSTATE = Some (js ''VS1''),
      input_VIEWSTATEGENERATOR = Some (js ''GEN1''),
      input_EVENTVALIDATION = Some (js ''EV1''),
      select_by_name = [], select_by_id = [],
      table_tr = [map js [''Code'', ''Name''], ex_tds]\<rparr>"

text \<open>A source that rejects every POST, and one that only answers the second POST.\<close>

definition dead_server :: server where
  "dead_server n r = None"


text \<open>A file system whose output file holds one row of 2024-11-29.\<close>

definition ex_file :: jsstring where
  "ex_file = js ''Date,Market,Code,Name,Variety,High,Mid,Low,Avg,Volume'' @ [LF] @
             js ''113/11/29,M,FV001,a,b,100,90,80,88,5'' @ [LF]"

definition ex_fs :: fs where
  "ex_fs = \<lparr>output_dir = True, output_file = Some ex_file\<rparr>"

definition no_file_fs :: fs where
  "no_file_fs = \<lparr>output_dir = True, output_file = None\<rparr>"

text \<open>The request of the first market for 2024-11-28 after the landing page above.\<close>

definition ex_request :: request where
  "ex_request =
     \<lparr>form_VIEWSTATE = js ''VS0'', form_VIEWSTATEGENERATOR = js ''GEN0'',
      form_EVENTVALIDATION = js ''EV0'', form_txtDate = js ''113/11/28'',
      form_Market = js ''1'', header_Cookie = js ''ASP.NET_SessionId=abc''\<rparr>"

text \<open>A source that answers every POST with a page without table rows.\<close>

definition empty_server :: server where
  "empty_server n r = Some ex_landing"

text \<open>
  A session with tokens, an answer whose \<open>__VIEWSTATE\<close> input has an empty value and
  which lacks the other two inputs and the cookie header, and an answer without
  \<open>__VIEWSTATE\<close> that carries the rest.
\<close>

definition ex_session :: session where
  "ex_session = initial_session ex_landing"

definition ex_empty_viewstate :: response where
  "ex_empty_viewstate =
     \<lparr>set_cookie = None, input_VIEWSTATE = Some [], input_VIEWSTATEGENERATOR = None,
      input_EVENTVALIDATION = None, select_by_name = [], select_by_id = [], table_tr = []\<rparr>"

definition ex_no_viewstate :: response where
  "ex_no_viewstate =
     \<lparr>set_cookie = Some [js ''k=v; path=/'', js ''t=1''], input_VIEWSTATE = None,
      input_VIEWSTATEGENERATOR = Some (js ''GEN2''), input_EVENTVALIDATION = Some (js ''EV2''),
      select_by_name = [], select_by_id = [], table_tr = []\<rparr>"

definition ex_state :: crawl_state where
  "ex_state = \<lparr>dataMap = [], session = ex_session, hasNewData = False, requests = []\<rparr>"

text \<open>A store with two dates, inserted in ascending order.\<close>

definition ex_store :: dataMap where
  "ex_store =
     [(js ''113/11/28'', [js ''113/11/28,M,FV001,a,b,1,2,3,4,5'', js ''113/11/28,N,FV001,a,b,1,2,3,4,5'']),
      (js ''113/11/29'', [js ''113/11/29,M,FV001,a,b,1,2,3,4,5''])]"

text \<open>
  Three days of 2024 in descending order, with a map that holds their keys in another
  order.
\<close>

definition ex_days :: "jsdate list" where
  "ex_days = [Date_of ex_today, Date_of (setDate_back ex_today 1), Date_of (setDate_back ex_today 29)]"

definition ex_days_store :: dataMap where
  "ex_days_store = [(js ''113/11/28'', []), (js ''113/10/31'', []), (js ''113/11/29'', [])]"

text \<open>A table row whose second cell holds a line feed.\<close>

definition ex_tds_nl :: "jsstring list" where
  "ex_tds_nl = [js ''FV001'', js ''a'' @ [LF] @ js ''b'', js ''v'', js ''100'', js ''90'',
                js ''80'', js ''88'', js ''5'']"

text \<open>A source that answers the first POST with that row and rejects the others.\<close>

definition ex_answer_nl :: response where
  "ex_answer_nl =
     \<lparr>set_cookie = None, input_VIEWSTATE = Some (js ''VS1''),
      input_VIEWSTATEGENERATOR = Some (js ''GEN1''), input_EVENTVALIDATION = Some (js ''EV1''),
      select_by_name = [], select_by_id = [], table_tr = [ex_tds_nl]\<rparr>"

definition first_only_nl_server :: server where
  "first_only_nl_server n r = (if n = 0 then Some ex_answer_nl else None)"

text \<open>
  For the backfill script: a file that holds a row of 2024-11-20, a state on that file,
  and a source that answers every POST with the example row.
\<close>

definition ex_old_fs :: fs where
  "ex_old_fs =
     \<lparr>output_dir = True,
      output_file = Some (js ''Date,Market,Code,Name,Variety,High,Mid,Low,Avg,Volume'' @ [LF] @
                          js ''113/11/20,M,FV001,a,b,1,2,3,4,5'' @ [LF])\<rparr>"

definition ex_backfill_state :: backfill_state where
  "ex_backfill_state = \<lparr>b_fs = ex_old_fs, b_session = ex_session, b_requests = []\<rparr>"

definition answer_server :: server where
  "answer_server n r = Some ex_answer"



section \<open>Facts about the result map and the crawl\<close>

lemma Map_has_set: "Map_has (Map_set m k v) k' \<longleftrightarrow> k' = k \<or> Map_has m k'"
  by (simp add: Map_has_def Map_set_def update_conv')

lemma Map_has_ensure_bucket: "Map_has (ensure_bucket m k) k' \<longleftrightarrow> k' = k \<or> Map_has m k'"
  by (auto simp: ensure_bucket_def Map_has_set)

lemma Map_has_push_line: "Map_has (push_line m k l) k' \<longleftrightarrow> Map_has m k'"
  by (auto simp: push_line_def Map_has_set split: option.splits) (simp add: Map_has_def)

lemma Map_has_fold_push:
  "Map_has (fold (\<lambda>nl m. if trim nl \<noteq> [] then push_line m d (trim nl) else m) ls m) k
     \<longleftrightarrow> Map_has m k"
  by (induction ls arbitrary: m) (simp_all add: Map_has_push_line)

lemma Map_has_absorb:
  "Map_has (absorb m d rows) k \<longleftrightarrow> Map_has m k \<or> (k = d \<and> rows \<noteq> [])"
  by (auto simp: absorb_def Let_def Map_has_fold_push Map_has_ensure_bucket)

lemma requests_query_market:
  "requests (query_market post d mk st) = requests st @ [formData (session st) d mk]"
  by (simp add: query_market_def Let_def split: option.splits)

lemma Map_has_query_market:
  "Map_has (dataMap (query_market post d mk st)) k \<Longrightarrow> Map_has (dataMap st) k \<or> k = d"
  by (auto simp: query_market_def Let_def Map_has_absorb split: option.splits if_splits)

lemma Map_has_query_market_mono:
  "Map_has (dataMap st) k \<Longrightarrow> Map_has (dataMap (query_market post d mk st)) k"
  by (auto simp: query_market_def Let_def Map_has_absorb split: option.splits)

lemma requests_fold_query_market:
  "\<exists>rs. requests (fold (query_market post d) mks st) = requests st @ rs \<and>
        map form_txtDate rs = replicate (length mks) d \<and>
        map form_Market rs = map m_val mks"
proof (induction mks arbitrary: st)
  case Nil
  show ?case by simp
next
  case (Cons mk mks)
  obtain rs where rs: "requests (fold (query_market post d) mks (query_market post d mk st)) =
      requests (query_market post d mk st) @ rs"
      "map form_txtDate rs = replicate (length mks) d" "map form_Market rs = map m_val mks"
    using Cons [of "query_market post d mk st"] by blast
  show ?case
    by (rule exI [of _ "formData (session st) d mk # rs"])
       (simp add: rs requests_query_market formData_def)
qed

lemma Map_has_fold_query_market:
  "Map_has (dataMap (fold (query_market post d) mks st)) k \<Longrightarrow> Map_has (dataMap st) k \<or> k = d"
  by (induction mks arbitrary: st) (auto dest: Map_has_query_market)

lemma Map_has_fold_query_market_mono:
  "Map_has (dataMap st) k \<Longrightarrow> Map_has (dataMap (fold (query_market post d) mks st)) k"
  by (induction mks arbitrary: st) (auto intro: Map_has_query_market_mono)

lemma requests_crawl:
  "\<exists>rs. requests (crawl post mks look cur st) = requests st @ rs \<and>
        (\<forall>r \<in> set rs. \<not> Map_has (dataMap st) (form_txtDate r))"
proof (induction post mks look cur st rule: crawl.induct)
  case (1 post mks look cur st)
  let ?d = "getRocDate (Date_of cur)"
  show ?case
  proof (cases "look \<le> cur")
    case False
    then show ?thesis by (simp add: crawl.simps [of post mks look cur st])
  next
    case True
    show ?thesis
    proof (cases "Map_has (dataMap st) ?d")
      case has: True
      from "1.IH"(1) [OF True refl has] show ?thesis
        using True has by (simp add: crawl.simps [of post mks look cur st])
    next
      case nhas: False
      let ?st' = "fold (query_market post ?d) mks st"
      obtain rs where rs: "requests (crawl post mks look (setDate_back cur 1) ?st') = requests ?st' @ rs"
         "\<forall>r \<in> set rs. \<not> Map_has (dataMap ?st') (form_txtDate r)"
        using "1.IH"(2) [OF True refl nhas] by blast
      obtain rs0 where rs0: "requests ?st' = requests st @ rs0"
         "map form_txtDate rs0 = replicate (length mks) ?d"
        using requests_fold_query_market [of post ?d mks st] by blast
      have a: "\<forall>r \<in> set rs0. \<not> Map_has (dataMap st) (form_txtDate r)"
      proof
        fix r assume "r \<in> set rs0"
        then have "form_txtDate r \<in> set (map form_txtDate rs0)" by simp
        then have "form_txtDate r = ?d" unfolding rs0(2) by simp
        then show "\<not> Map_has (dataMap st) (form_txtDate r)" using nhas by simp
      qed
      have b: "\<forall>r \<in> set rs. \<not> Map_has (dataMap st) (form_txtDate r)"
        using rs(2) Map_has_fold_query_market_mono by blast
      have "requests (crawl post mks look cur st) = requests st @ (rs0 @ rs)"
        using True nhas rs(1) rs0(1) by (simp add: crawl.simps [of post mks look cur st])
      then show ?thesis using a b by (intro exI [of _ "rs0 @ rs"]) auto
    qed
  qed
qed

section \<open>Facts about the extraction\<close>

lemma length_ge_8:
  "8 \<le> length (xs :: 'a list) \<Longrightarrow> \<exists>a b c d e f g h rest. xs = a # b # c # d # e # f # g # h # rest"
  by (auto simp: numeral_eq_Suc Suc_le_length_iff)

lemma extract_row_Some_iff:
  "extract_row d m tds = Some r \<longleftrightarrow>
     8 \<le> length tds \<and> startsWith (trim (tds ! 0)) (js ''FV'') \<and>
     r = [d, m] @ map trim (take 8 tds)"
proof (cases "8 \<le> length tds")
  case True
  then obtain a b c d' e f g h rest where "tds = a # b # c # d' # e # f # g # h # rest"
    using length_ge_8 by blast
  then show ?thesis by (auto simp: extract_row_def Let_def)
next
  case False
  then show ?thesis by (simp add: extract_row_def)
qed

lemma extract_row_None_iff:
  "extract_row d m tds = None \<longleftrightarrow> \<not> (8 \<le> length tds \<and> startsWith (trim (tds ! 0)) (js ''FV''))"
  using extract_row_Some_iff [of d m tds] by (cases "extract_row d m tds") auto

lemma extract_rows_filter:
  "extract_rows d m trs =
     map (\<lambda>tds. [d, m] @ map trim (take 8 tds))
       (filter (\<lambda>tds. 8 \<le> length tds \<and> startsWith (trim (tds ! 0)) (js ''FV'')) trs)"
proof (induction trs)
  case Nil
  show ?case by (simp add: extract_rows_def List.map_filter_simps)
next
  case (Cons tds trs)
  then have IH: "List.map_filter (extract_row d m) trs =
     map (\<lambda>tds. [d, m] @ map trim (take 8 tds))
       (filter (\<lambda>tds. 8 \<le> length tds \<and> startsWith (trim (tds ! 0)) (js ''FV'')) trs)"
    by (simp add: extract_rows_def)
  show ?case
  proof (cases "extract_row d m tds")
    case None
    then show ?thesis using IH extract_row_None_iff [of d m tds]
      by (simp add: extract_rows_def List.map_filter_simps)
  next
    case (Some r)
    then show ?thesis using IH extract_row_Some_iff [of d m tds r]
      by (simp add: extract_rows_def List.map_filter_simps)
  qed
qed

section \<open>C2: what the loop of index.js plans\<close>

text \<open>
  Claim C2, as amended. The loop of index.js is the incremental mode: it walks the
  lookback window from today backwards and skips a date whenever its key is in the map.
  No POST of a run carries a date that was a key of the store loaded at the start. There
  is no exception for the most recent dates of the window.
\<close>

theorem C2_plan_skips_stored_dates:
  "\<forall>r \<in> set (snd (main f now0 now1 initial post)).
     \<not> Map_has (load (output_file f)) (form_txtDate r)"
proof (cases initial)
  case None
  then show ?thesis by (simp add: main_def)
next
  case (Some response)
  let ?st = "\<lparr>dataMap = load (output_file f), session = initial_session response,
              hasNewData = False, requests = []\<rparr>"
  obtain rs where rs:
    "requests (crawl post (detect_markets response) (setDate_back now1 14) now0 ?st) = requests ?st @ rs"
    "\<forall>r \<in> set rs. \<not> Map_has (dataMap ?st) (form_txtDate r)"
    using requests_crawl by blast
  have "output_file (ensure_output_dir f) = output_file f"
    by (simp add: ensure_output_dir_def)
  then show ?thesis using Some rs by (simp add: main_def Let_def)
qed

text \<open>
  On 2024-11-29, with a file that holds 113/11/29 only, the request for 113/11/28 is sent
  and its date is not in the store.
\<close>

theorem C2_plan_skips_stored_dates_witness:
  "ex_request \<in> set (snd (main ex_fs ex_today ex_today (Some ex_landing) dead_server)) \<and>
   \<not> Map_has (load (output_file ex_fs)) (form_txtDate ex_request)"
proof -
  have "ex_request \<in> set (snd (main ex_fs ex_today ex_today (Some ex_landing) dead_server))"
    by code_simp
  then show ?thesis
    using C2_plan_skips_stored_dates [of ex_fs ex_today ex_today "Some ex_landing" dead_server]
    by blast
qed

text \<open>
  The claim as stated fails: in the same run the most recent date of the window, today's
  113/11/29, is complete in the store and no unit is planned for it, while the day before
  is planned.
\<close>

theorem C2_counterexample:
  "getRocDate (Date_of ex_today) = ex_key \<and>
   Map_has (load (output_file ex_fs)) ex_key \<and>
   ex_key \<notin> form_txtDate ` set (snd (main ex_fs ex_today ex_today (Some ex_landing) dead_server)) \<and>
   js ''113/11/28'' \<in> form_txtDate ` set (snd (main ex_fs ex_today ex_today (Some ex_landing) dead_server))"
  by code_simp

section \<open>C1: absorbing the rows of a unit\<close>

text \<open>
  Claim C1, as amended. Absorbing a non-empty list of rows makes the date a key of the
  map, and a loop started on that map sends no POST for the date. Absorbing the empty list
  leaves the map as it was, so the date is not marked.
\<close>

theorem C1_absorb_marks_date_when_rows:
  "(rows \<noteq> [] \<longrightarrow>
      Map_has (absorb m d rows) d \<and>
      (\<forall>r \<in> set (requests (crawl post mks look cur
                \<lparr>dataMap = absorb m d rows, session = s, hasNewData = h, requests = []\<rparr>)).
         form_txtDate r \<noteq> d)) \<and>
   absorb m d [] = m"
proof -
  have "form_txtDate r \<noteq> d"
    if "rows \<noteq> []"
       "r \<in> set (requests (crawl post mks look cur
                \<lparr>dataMap = absorb m d rows, session = s, hasNewData = h, requests = []\<rparr>))"
    for r
  proof -
    let ?st = "\<lparr>dataMap = absorb m d rows, session = s, hasNewData = h, requests = []\<rparr>"
    obtain rs where "requests (crawl post mks look cur ?st) = requests ?st @ rs"
      "\<forall>r \<in> set rs. \<not> Map_has (dataMap ?st) (form_txtDate r)"
      using requests_crawl by blast
    then have "\<not> Map_has (absorb m d rows) (form_txtDate r)" using that(2) by simp
    then show ?thesis using that(1) by (auto simp: Map_has_absorb)
  qed
  then show ?thesis by (auto simp: Map_has_absorb) (simp add: absorb_def)
qed

theorem C1_absorb_marks_date_when_rows_witness:
  "[[ex_key, m_txt ex_market] @ ex_tds] \<noteq> [] \<and>
   Map_has (absorb [] ex_key [[ex_key, m_txt ex_market] @ ex_tds]) ex_key \<and>
   absorb [] ex_key [] = []"
  using C1_absorb_marks_date_when_rows [of "[[ex_key, m_txt ex_market] @ ex_tds]" "[]" ex_key]
  by simp

text \<open>
  The claim as stated fails on the empty list: the date is not a key afterwards. A run in
  which every answer has no qualifying row queries 113/11/29, and so does the next run on
  the file the first one wrote.
\<close>

theorem C1_counterexample:
  "\<not> Map_has (absorb [] ex_key []) ex_key \<and>
   ex_key \<in> form_txtDate ` set (snd (main no_file_fs ex_today ex_today (Some ex_landing) empty_server)) \<and>
   ex_key \<in> form_txtDate ` set (snd (main
       (fst (main no_file_fs ex_today ex_today (Some ex_landing) empty_server))
       ex_today ex_today (Some ex_landing) empty_server))"
  by code_simp

section \<open>C8: which rows the extraction keeps\<close>

text \<open>
  Claim C8. The rows pushed for a response are, in the order of the table, the rows with
  at least 8 cells whose first cell (trimmed, as the code reads every cell) starts with
  \<open>FV\<close>. Every row of the output has 10 fields and a code that starts with \<open>FV\<close>; a row that
  does not qualify contributes nothing, and the function is total.
\<close>

theorem C8_extract_keeps_qualifying_rows:
  "extract_rows d m trs =
     map (\<lambda>tds. [d, m] @ map trim (take 8 tds))
       (filter (\<lambda>tds. 8 \<le> length tds \<and> startsWith (trim (tds ! 0)) (js ''FV'')) trs) \<and>
   (\<forall>r \<in> set (extract_rows d m trs). length r = 10 \<and> startsWith (r ! 2) (js ''FV''))"
proof -
  have "length r = 10 \<and> startsWith (r ! 2) (js ''FV'')" if "r \<in> set (extract_rows d m trs)" for r
  proof -
    from that obtain tds where tds: "8 \<le> length tds" "startsWith (trim (tds ! 0)) (js ''FV'')"
        "r = [d, m] @ map trim (take 8 tds)"
      unfolding extract_rows_filter by auto
    obtain a b c d' e f g h rest where "tds = a # b # c # d' # e # f # g # h # rest"
      using length_ge_8 [OF tds(1)] by blast
    then show ?thesis using tds by simp
  qed
  then show ?thesis using extract_rows_filter by blast
qed

theorem C8_extract_keeps_qualifying_rows_witness:
  "extract_rows ex_key (m_txt ex_market) [map js [''Code'', ''Name''], ex_tds, map js [''XX1'', ''1'', ''2'', ''3'', ''4'', ''5'', ''6'', ''7'']] =
     [[ex_key, m_txt ex_market] @ ex_tds] \<and>
   [ex_key, m_txt ex_market] @ ex_tds \<in> set (extract_rows ex_key (m_txt ex_market) [map js [''Code'', ''Name''], ex_tds, map js [''XX1'', ''1'', ''2'', ''3'', ''4'', ''5'', ''6'', ''7'']]) \<and>
   length ([ex_key, m_txt ex_market] @ ex_tds) = 10 \<and>
   startsWith (([ex_key, m_txt ex_market] @ ex_tds) ! 2) (js ''FV'')"
proof -
  let ?trs = "[map js [''Code'', ''Name''], ex_tds, map js [''XX1'', ''1'', ''2'', ''3'', ''4'', ''5'', ''6'', ''7'']]"
  have 1: "extract_rows ex_key (m_txt ex_market) ?trs = [[ex_key, m_txt ex_market] @ ex_tds]"
    by code_simp
  then have 2: "[ex_key, m_txt ex_market] @ ex_tds \<in> set (extract_rows ex_key (m_txt ex_market) ?trs)"
    by simp
  show ?thesis
    using 1 2 C8_extract_keeps_qualifying_rows [of ex_key "m_txt ex_market" ?trs] by blast
qed

section \<open>C4: the numeric cells\<close>

text \<open>
  Claim C4, as amended. The extraction does not turn any cell into a number: the fields
  High, Mid, Low, Avg and Volume of a pushed row are the trimmed texts of cells 3 to 7,
  whatever they hold. Commas stay, and a text that is not a number is not replaced by 0.
  For the row \<open>["FV001","\<dots>","\<dots>","100","90","80","88","1,234"]\<close> the record has the
  text \<open>1,234\<close> as Volume and the text \<open>88\<close> as Avg; for the row
  \<open>["FV001","\<dots>","\<dots>","-","-","-","-","n/a"]\<close> it has the text \<open>n/a\<close> as Volume and
  the text \<open>-\<close> as Avg.
\<close>

theorem C4_extract_keeps_cell_text:
  "(extract_row d m tds = Some r \<longrightarrow>
      r ! 5 = trim (tds ! 3) \<and> r ! 6 = trim (tds ! 4) \<and> r ! 7 = trim (tds ! 5) \<and>
      r ! 8 = trim (tds ! 6) \<and> r ! 9 = trim (tds ! 7)) \<and>
   extract_rows ex_key (m_txt ex_market) [ex_tds] =
     [[ex_key, m_txt ex_market, js ''FV001'', [0x8525], [0x7C89, 0x8525], js ''100'', js ''90'',
       js ''80'', js ''88'', js ''1,234'']] \<and>
   extract_rows ex_key (m_txt ex_market) [ex_tds_dash] =
     [[ex_key, m_txt ex_market, js ''FV001'', [0x8525], [0x7C89, 0x8525], js ''-'', js ''-'',
       js ''-'', js ''-'', js ''n/a'']]"
proof -
  have 1: "r ! 5 = trim (tds ! 3) \<and> r ! 6 = trim (tds ! 4) \<and> r ! 7 = trim (tds ! 5) \<and>
      r ! 8 = trim (tds ! 6) \<and> r ! 9 = trim (tds ! 7)"
    if a: "extract_row d m tds = Some r"
  proof -
    from a have l: "8 \<le> length tds" and r: "r = [d, m] @ map trim (take 8 tds)"
      by (simp_all add: extract_row_Some_iff)
    obtain a b c d' e f g h rest where "tds = a # b # c # d' # e # f # g # h # rest"
      using length_ge_8 [OF l] by blast
    then show ?thesis using r by simp
  qed
  have 2: "extract_rows ex_key (m_txt ex_market) [ex_tds] =
     [[ex_key, m_txt ex_market, js ''FV001'', [0x8525], [0x7C89, 0x8525], js ''100'', js ''90'',
       js ''80'', js ''88'', js ''1,234'']]"
    by code_simp
  have 3: "extract_rows ex_key (m_txt ex_market) [ex_tds_dash] =
     [[ex_key, m_txt ex_market, js ''FV001'', [0x8525], [0x7C89, 0x8525], js ''-'', js ''-'',
       js ''-'', js ''-'', js ''n/a'']]"
    by code_simp
  show ?thesis using 1 2 3 by blast
qed

theorem C4_extract_keeps_cell_text_witness:
  "extract_row ex_key (m_txt ex_market) ex_tds = Some ([ex_key, m_txt ex_market] @ ex_tds) \<and>
   ([ex_key, m_txt ex_market] @ ex_tds) ! 9 = trim (ex_tds ! 7) \<and>
   ([ex_key, m_txt ex_market] @ ex_tds) ! 8 = trim (ex_tds ! 6) \<and>
   trim (ex_tds ! 7) = js ''1,234'' \<and> trim (ex_tds ! 6) = js ''88''"
proof -
  have 1: "extract_row ex_key (m_txt ex_market) ex_tds = Some ([ex_key, m_txt ex_market] @ ex_tds)"
    by code_simp
  have 2: "trim (ex_tds ! 7) = js ''1,234''" "trim (ex_tds ! 6) = js ''88''"
    by code_simp+
  show ?thesis
    using 1 2 C4_extract_keeps_cell_text [of ex_key "m_txt ex_market" ex_tds
        "[ex_key, m_txt ex_market] @ ex_tds"]
    by blast
qed

text \<open>
  The claim as stated fails on its own example: for the row
  \<open>["FV001","\<dots>","\<dots>","100","90","80","88","1,234"]\<close> the Volume field of the record is
  the text \<open>1,234\<close>, not \<open>1234\<close>, and the line stored for it quotes that text.
\<close>

theorem C4_counterexample:
  "extract_rows ex_key (m_txt ex_market) [ex_tds] =
     [[ex_key, m_txt ex_market, js ''FV001'', [0x8525], [0x7C89, 0x8525], js ''100'', js ''90'',
       js ''80'', js ''88'', js ''1,234'']] \<and>
   js ''1,234'' \<noteq> js ''1234'' \<and>
   absorb [] ex_key (extract_rows ex_key (m_txt ex_market) [ex_tds]) =
     [(ex_key, [js ''113/11/29,'' @ m_txt ex_market @ js '',FV001,'' @ [0x8525, COMMA, 0x7C89, 0x8525] @
                js '',100,90,80,88,'' @ [DQUOTE] @ js ''1,234'' @ [DQUOTE]])]"
  by code_simp

section \<open>C9: refreshing the session\<close>

lemma or_else_cases:
  "or_else a b = (if a = None \<or> a = Some [] then b else a)"
  by (auto simp: or_else_def split: option.splits)

text \<open>
  Claim C9, as amended. After a POST that is answered, the session is the refreshed one.
  The cookies become the name=value parts of the \<open>set-cookie\<close> header when the response
  has the header and stay as they were otherwise. Each of the three tokens takes the value
  of its hidden input when that value is present and not empty, and keeps the previous
  value when the input is absent or its value is the empty string.
\<close>

theorem C9_refresh_field_by_field:
  "(post (length (requests st)) (formData (session st) d mk) = Some res \<longrightarrow>
      session (query_market post d mk st) = refresh res (session st)) \<and>
   cookies (refresh res s) =
     (case set_cookie res of Some cs \<Rightarrow> cookie_header cs | None \<Rightarrow> cookies s) \<and>
   viewstate (refresh res s) =
     (if input_VIEWSTATE res = None \<or> input_VIEWSTATE res = Some [] then viewstate s
      else input_VIEWSTATE res) \<and>
   viewstateGenerator (refresh res s) =
     (if input_VIEWSTATEGENERATOR res = None \<or> input_VIEWSTATEGENERATOR res = Some []
      then viewstateGenerator s else input_VIEWSTATEGENERATOR res) \<and>
   eventValidation (refresh res s) =
     (if input_EVENTVALIDATION res = None \<or> input_EVENTVALIDATION res = Some []
      then eventValidation s else input_EVENTVALIDATION res)"
  by (simp add: refresh_def or_else_cases query_market_def Let_def)

theorem C9_refresh_field_by_field_witness:
  "empty_server (length (requests ex_state)) (formData (session ex_state) ex_key ex_market) =
     Some ex_landing \<and>
   session (query_market empty_server ex_key ex_market ex_state) =
     refresh ex_landing (session ex_state) \<and>
   refresh ex_no_viewstate ex_session =
     \<lparr>cookies = js ''k=v; t=1'', viewstate = Some (js ''VS0''),
      viewstateGenerator = Some (js ''GEN2''), eventValidation = Some (js ''EV2'')\<rparr> \<and>
   viewstate (refresh ex_no_viewstate ex_session) = viewstate ex_session"
proof -
  have 0: "empty_server (length (requests ex_state)) (formData (session ex_state) ex_key ex_market) =
     Some ex_landing"
    by (simp add: empty_server_def)
  have 1: "refresh ex_no_viewstate ex_session =
     \<lparr>cookies = js ''k=v; t=1'', viewstate = Some (js ''VS0''),
      viewstateGenerator = Some (js ''GEN2''), eventValidation = Some (js ''EV2'')\<rparr>"
    by code_simp
  have 2: "input_VIEWSTATE ex_no_viewstate = None"
    by (simp add: ex_no_viewstate_def)
  show ?thesis
    using 0 1 2
      C9_refresh_field_by_field [of empty_server ex_state ex_key ex_market ex_landing ex_session]
      C9_refresh_field_by_field [of empty_server ex_state ex_key ex_market ex_no_viewstate
        ex_session]
    by simp
qed

text \<open>
  The claim as stated fails when a field is present with an empty value: the response
  holds \<open>__VIEWSTATE\<close> with the value \<open>""\<close>, and the session keeps \<open>VS0\<close>.
\<close>

theorem C9_counterexample:
  "input_VIEWSTATE ex_empty_viewstate = Some [] \<and>
   viewstate (refresh ex_empty_viewstate ex_session) = Some (js ''VS0'') \<and>
   viewstate (refresh ex_empty_viewstate ex_session) \<noteq> input_VIEWSTATE ex_empty_viewstate"
  by code_simp

section \<open>C5: a failed initial fetch\<close>

lemma stringify_headers:
  "stringify [headers] = js ''Date,Market,Code,Name,Variety,High,Mid,Low,Avg,Volume'' @ [LF]"
  by code_simp

text \<open>
  Claim C5, as amended. When the initial GET is rejected, no POST is sent by either
  script. index.js leaves the output file as it was. The backfill script leaves an
  existing file as it was; when there was no file it has already created one that holds
  the header row only, before the GET.
\<close>

theorem C5_failed_initial_fetch:
  "snd (main f now0 now1 None post) = [] \<and>
   output_file (fst (main f now0 now1 None post)) = output_file f \<and>
   snd (backfill_main f tz None post) = [] \<and>
   output_file (fst (backfill_main f tz None post)) =
     (case output_file f of
        Some content \<Rightarrow> Some content
      | None \<Rightarrow> Some (js ''Date,Market,Code,Name,Variety,High,Mid,Low,Avg,Volume'' @ [LF]))"
  by (simp add: main_def backfill_main_def ensure_output_dir_def writeFileSync_def
      stringify_headers split: option.splits)

theorem C5_failed_initial_fetch_witness:
  "output_file (fst (main ex_fs ex_today ex_today None dead_server)) = Some ex_file \<and>
   output_file (fst (main no_file_fs ex_today ex_today None dead_server)) = None \<and>
   output_file (fst (backfill_main ex_fs 0 None dead_server)) = Some ex_file"
  using C5_failed_initial_fetch [of ex_fs ex_today ex_today dead_server 0]
    C5_failed_initial_fetch [of no_file_fs ex_today ex_today dead_server 0]
  by (simp add: ex_fs_def no_file_fs_def)

text \<open>
  The claim as stated fails for the backfill script: started without an output file, it
  ends the aborted run with a file that holds the header row.
\<close>

theorem C5_counterexample:
  "output_file no_file_fs = None \<and>
   output_file (fst (backfill_main no_file_fs 0 None dead_server)) =
     Some (js ''Date,Market,Code,Name,Variety,High,Mid,Low,Avg,Volume'' @ [LF])"
  by code_simp

section \<open>C3: writing the file\<close>

lemma fold_writeSync_lines:
  "fold (\<lambda>line. writeSync (line @ [LF])) ls f =
     f\<lparr>output_file := map_option (\<lambda>content. content @ concat (map (\<lambda>l. l @ [LF]) ls)) (output_file f)\<rparr>"
proof (induction ls arbitrary: f)
  case Nil
  show ?case by (simp add: option.map_ident)
next
  case (Cons l ls)
  have "fold (\<lambda>line. writeSync (line @ [LF])) (l # ls) f =
        fold (\<lambda>line. writeSync (line @ [LF])) ls (writeSync (l @ [LF]) f)"
    by simp
  also have "\<dots> = (writeSync (l @ [LF]) f)\<lparr>output_file := map_option
        (\<lambda>content. content @ concat (map (\<lambda>l. l @ [LF]) ls))
        (output_file (writeSync (l @ [LF]) f))\<rparr>"
    by (rule Cons)
  also have "\<dots> = f\<lparr>output_file := map_option
        (\<lambda>content. content @ concat (map (\<lambda>l. l @ [LF]) (l # ls))) (output_file f)\<rparr>"
    by (simp add: writeSync_def option.map_comp comp_def)
  finally show ?case .
qed

lemma fold_writeSync_buckets:
  "fold (\<lambda>date. fold (\<lambda>line. writeSync (line @ [LF])) (Map_get m date)) ks f =
     f\<lparr>output_file := map_option
          (\<lambda>content. content @ concat (map (\<lambda>l. l @ [LF]) (concat (map (Map_get m) ks))))
          (output_file f)\<rparr>"
proof -
  define g where "g = (\<lambda>date. fold (\<lambda>line. writeSync (line @ [LF])) (Map_get m date))"
  have g: "g date f' = f'\<lparr>output_file := map_option
          (\<lambda>content. content @ concat (map (\<lambda>l. l @ [LF]) (Map_get m date)))
          (output_file f')\<rparr>" for date f'
    unfolding g_def by (rule fold_writeSync_lines)
  have "fold g ks f = f\<lparr>output_file := map_option
          (\<lambda>content. content @ concat (map (\<lambda>l. l @ [LF]) (concat (map (Map_get m) ks))))
          (output_file f)\<rparr>"
  proof (induction ks arbitrary: f)
    case Nil
    show ?case by (simp add: option.map_ident)
  next
    case (Cons k ks)
    have "fold g (k # ks) f = fold g ks (g k f)"
      by simp
    also have "\<dots> = (g k f)\<lparr>output_file := map_option
          (\<lambda>content. content @ concat (map (\<lambda>l. l @ [LF]) (concat (map (Map_get m) ks))))
          (output_file (g k f))\<rparr>"
      by (rule Cons)
    also have "\<dots> = f\<lparr>output_file := map_option
          (\<lambda>content. content @ concat (map (\<lambda>l. l @ [LF]) (concat (map (Map_get m) (k # ks)))))
          (output_file f)\<rparr>"
      by (simp add: g option.map_comp comp_def)
    finally show ?case .
  qed
  then show ?thesis unfolding g_def .
qed

lemma stringify_headers_row: "stringify [headers] = header_row @ [LF]"
  by code_simp

lemma sort_and_write_serialize:
  "sort_and_write m f = f\<lparr>output_file := Some (concat (map (\<lambda>row. row @ [LF]) (spec_serialize m)))\<rparr>"
  by (simp add: sort_and_write_def Let_def fold_writeSync_buckets openSync_w_def writeSync_def
      stringify_headers_row spec_serialize_def sortedDates_def)

lemma Map_get_push_line:
  "Map_has m k \<Longrightarrow> Map_get (push_line m k l) k = Map_get m k @ [l]"
  by (auto simp: Map_has_def Map_get_def push_line_def Map_set_def update_conv')

lemma backfill_market_appends:
  "post (length (b_requests st)) (formData (b_session st) d mk) = Some res \<Longrightarrow>
   extract_rows d (m_txt mk) (table_tr res) \<noteq> [] \<Longrightarrow>
   output_file (b_fs (backfill_market post d mk st)) =
     Some ((case output_file (b_fs st) of Some content \<Rightarrow> content | None \<Rightarrow> []) @
           stringify (extract_rows d (m_txt mk) (table_tr res)))"
  by (simp add: backfill_market_def Let_def appendFileSync_def)

text \<open>
  Claim C3, as amended. Whatever the output file held, after the write phase of index.js
  it holds the header row followed by the rows of every bucket, each with a line feed,
  the buckets taken by key in descending order and the rows of a bucket in the order they
  were pushed. An empty store gives a file with the header row only. The backfill script
  has no store: when a unit returns rows, it appends them to what the file holds.
\<close>

theorem C3_flush_rewrites_whole_file:
  "output_file (sort_and_write m f) = Some (concat (map (\<lambda>row. row @ [LF]) (spec_serialize m))) \<and>
   spec_serialize m = header_row # concat (map (Map_get m) (sortedDates m)) \<and>
   set (sortedDates m) = set (Map_keys m) \<and>
   sorted (rev (sortedDates m)) \<and>
   (distinct (Map_keys m) \<longrightarrow> sorted_wrt (\<lambda>a b. b < a) (sortedDates m)) \<and>
   (Map_has m k \<longrightarrow> Map_get (push_line m k l) k = Map_get m k @ [l]) \<and>
   output_file (sort_and_write [] f) =
     Some (js ''Date,Market,Code,Name,Variety,High,Mid,Low,Avg,Volume'' @ [LF]) \<and>
   (post (length (b_requests st)) (formData (b_session st) d mk) = Some res \<and>
    extract_rows d (m_txt mk) (table_tr res) \<noteq> [] \<longrightarrow>
      output_file (b_fs (backfill_market post d mk st)) =
        Some ((case output_file (b_fs st) of Some content \<Rightarrow> content | None \<Rightarrow> []) @
              stringify (extract_rows d (m_txt mk) (table_tr res))))"
proof -
  have "sorted_wrt (\<lambda>a b. b < a) (sortedDates m)" if "distinct (Map_keys m)"
  proof -
    have "sorted_wrt (<) (sort (Map_keys m))"
      using that by (simp add: strict_sorted_iff)
    then show ?thesis
      by (simp add: sortedDates_def sorted_wrt_rev)
  qed
  moreover have "output_file (sort_and_write [] f) =
     Some (js ''Date,Market,Code,Name,Variety,High,Mid,Low,Avg,Volume'' @ [LF])"
    by (simp add: sort_and_write_serialize spec_serialize_def Map_keys_def header_row_def)
  moreover have "spec_serialize m = header_row # concat (map (Map_get m) (sortedDates m))"
    "set (sortedDates m) = set (Map_keys m)" "sorted (rev (sortedDates m))"
    by (simp_all add: spec_serialize_def sortedDates_def)
  ultimately show ?thesis
    using backfill_market_appends [of post st d mk res]
    by (simp add: sort_and_write_serialize Map_get_push_line)
qed

theorem C3_flush_rewrites_whole_file_witness:
  "output_file (sort_and_write ex_store ex_fs) =
     Some (js ''Date,Market,Code,Name,Variety,High,Mid,Low,Avg,Volume'' @ [LF] @
           js ''113/11/29,M,FV001,a,b,1,2,3,4,5'' @ [LF] @
           js ''113/11/28,M,FV001,a,b,1,2,3,4,5'' @ [LF] @
           js ''113/11/28,N,FV001,a,b,1,2,3,4,5'' @ [LF]) \<and>
   distinct (Map_keys ex_store) \<and>
   sortedDates ex_store = [js ''113/11/29'', js ''113/11/28''] \<and>
   Map_has ex_store (js ''113/11/29'') \<and>
   Map_get (push_line ex_store (js ''113/11/29'') (js ''x,y'')) (js ''113/11/29'') =
     [js ''113/11/29,M,FV001,a,b,1,2,3,4,5'', js ''x,y''] \<and>
   answer_server (length (b_requests ex_backfill_state))
     (formData (b_session ex_backfill_state) (js ''113/11/26'') ex_market) = Some ex_answer \<and>
   extract_rows (js ''113/11/26'') (m_txt ex_market) (table_tr ex_answer) \<noteq> [] \<and>
   output_file (b_fs (backfill_market answer_server (js ''113/11/26'') ex_market ex_backfill_state)) =
     Some (js ''Date,Market,Code,Name,Variety,High,Mid,Low,Avg,Volume'' @ [LF] @
           js ''113/11/20,M,FV001,a,b,1,2,3,4,5'' @ [LF] @
           stringify (extract_rows (js ''113/11/26'') (m_txt ex_market) (table_tr ex_answer)))"
proof -
  have 1: "concat (map (\<lambda>row. row @ [LF]) (spec_serialize ex_store)) =
      js ''Date,Market,Code,Name,Variety,High,Mid,Low,Avg,Volume'' @ [LF] @
           js ''113/11/29,M,FV001,a,b,1,2,3,4,5'' @ [LF] @
           js ''113/11/28,M,FV001,a,b,1,2,3,4,5'' @ [LF] @
           js ''113/11/28,N,FV001,a,b,1,2,3,4,5'' @ [LF]"
    by code_simp
  have 2: "distinct (Map_keys ex_store)" by code_simp
  have 3: "sortedDates ex_store = [js ''113/11/29'', js ''113/11/28'']" by code_simp
  have 4: "Map_has ex_store (js ''113/11/29'')" by code_simp
  have 5: "Map_get ex_store (js ''113/11/29'') = [js ''113/11/29,M,FV001,a,b,1,2,3,4,5'']"
    by code_simp
  have 6: "answer_server (length (b_requests ex_backfill_state))
     (formData (b_session ex_backfill_state) (js ''113/11/26'') ex_market) = Some ex_answer"
    by (simp add: answer_server_def)
  have 7: "extract_rows (js ''113/11/26'') (m_txt ex_market) (table_tr ex_answer) \<noteq> []"
    by code_simp
  have 8: "output_file (b_fs ex_backfill_state) =
     Some (js ''Date,Market,Code,Name,Variety,High,Mid,Low,Avg,Volume'' @ [LF] @
           js ''113/11/20,M,FV001,a,b,1,2,3,4,5'' @ [LF])"
    by (simp add: ex_backfill_state_def ex_old_fs_def)
  show ?thesis
    using 1 2 3 4 5 6 7 8
      C3_flush_rewrites_whole_file [of ex_store ex_fs "js ''113/11/29''" "js ''x,y''"
        answer_server ex_backfill_state "js ''113/11/26''" ex_market ex_answer]
    by simp
qed

text \<open>
  The claim as stated fails for the backfill script. On a file that holds a row of
  113/11/20, the unit of 113/11/26 leaves the old content in place and puts its row after
  it, so the dates of the file ascend; the file is not what a rewrite of the rows it holds
  would give.
\<close>

theorem C3_counterexample:
  "output_file (b_fs (backfill_market answer_server (js ''113/11/26'') ex_market ex_backfill_state)) =
     Some (js ''Date,Market,Code,Name,Variety,High,Mid,Low,Avg,Volume'' @ [LF] @
           js ''113/11/20,M,FV001,a,b,1,2,3,4,5'' @ [LF] @
           js ''113/11/26,'' @ m_txt ex_market @ js '',FV001,'' @ [0x8525, COMMA, 0x7C89, 0x8525] @
           js '',100,90,80,88,'' @ [DQUOTE] @ js ''1,234'' @ [DQUOTE, LF]) \<and>
   output_file (sort_and_write (load (output_file (b_fs
       (backfill_market answer_server (js ''113/11/26'') ex_market ex_backfill_state)))) no_file_fs) \<noteq>
   output_file (b_fs (backfill_market answer_server (js ''113/11/26'') ex_market ex_backfill_state))"
  by code_simp

section \<open>C10: the date keys\<close>

lemma less_append_same: "(xs :: nat list) @ us < xs @ vs \<longleftrightarrow> us < vs"
  by (induction xs) simp_all

lemma less_append_eq_length:
  "length xs = length ys \<Longrightarrow> (xs :: nat list) < ys \<Longrightarrow> xs @ us < ys @ vs"
  by (induction xs ys rule: list_induct2) auto

lemma div10_cases:
  "(a::nat) < b \<Longrightarrow> a div 10 < b div 10 \<or> (a div 10 = b div 10 \<and> a mod 10 < b mod 10)"
proof (cases "a div 10 < b div 10")
  case True
  then show ?thesis by simp
next
  case False
  assume ab: "a < b"
  have "a div 10 \<le> b div 10" using ab by (simp add: div_le_mono)
  then have eq: "a div 10 = b div 10" using False by simp
  have "a div 10 * 10 + a mod 10 = a" "b div 10 * 10 + b mod 10 = b" by simp_all
  then have "a mod 10 < b mod 10" using eq ab by (metis nat_add_left_cancel_less)
  then show ?thesis using eq by simp
qed

lemma digits_small: "n < 10 \<Longrightarrow> digits n = [ZERO + n]"
  by (simp add: digits.simps)

lemma digits_big: "10 \<le> n \<Longrightarrow> digits n = digits (n div 10) @ [ZERO + n mod 10]"
  by (subst digits.simps) simp

lemma digits_not_Nil: "digits n \<noteq> []"
proof (cases "n < 10")
  case True
  then show ?thesis by (simp add: digits_small)
next
  case False
  then have "digits n = digits (n div 10) @ [ZERO + n mod 10]"
    by (intro digits_big) simp
  then show ?thesis by simp
qed

lemma length_digits_big: "10 \<le> n \<Longrightarrow> 2 \<le> length (digits n)"
proof -
  assume n: "10 \<le> n"
  have "length (digits n) = length (digits (n div 10)) + 1"
    unfolding digits_big [OF n] by simp
  then show ?thesis
    using digits_not_Nil [of "n div 10"] by (cases "digits (n div 10)") simp_all
qed

lemma digits_less:
  "a < b \<Longrightarrow> length (digits a) = length (digits b) \<Longrightarrow> digits a < digits b"
proof (induction a arbitrary: b rule: digits.induct)
  case (1 a)
  show ?case
  proof (cases "a < 10")
    case True
    have "length (digits a) = 1" using True by (simp add: digits_small)
    then have b: "b < 10"
      using "1.prems"(2) length_digits_big [of b] by (cases "b < 10") simp_all
    then show ?thesis using True "1.prems"(1) by (simp add: digits_small)
  next
    case False
    then have a: "10 \<le> a" by simp
    then have b: "10 \<le> b" using "1.prems"(1) by simp
    note da = digits_big [OF a] and db = digits_big [OF b]
    have len: "length (digits (a div 10)) = length (digits (b div 10))"
      using "1.prems"(2) by (simp add: da db)
    show ?thesis
    proof (cases "a div 10 < b div 10")
      case True
      then have "digits (a div 10) < digits (b div 10)"
        using "1.IH" [OF False True len] by simp
      then show ?thesis using len by (simp add: da db less_append_eq_length)
    next
      case False
      then have "a div 10 = b div 10" "a mod 10 < b mod 10"
        using div10_cases [OF "1.prems"(1)] by simp_all
      then show ?thesis by (simp add: da db less_append_same)
    qed
  qed
qed

lemma hd_digits: "48 \<le> hd (digits n) \<and> (0 < n \<longrightarrow> hd (digits n) \<noteq> ZERO)"
proof (induction n rule: digits.induct)
  case (1 n)
  show ?case
  proof (cases "n < 10")
    case True
    then show ?thesis by (simp add: digits_small)
  next
    case False
    then have "digits n = digits (n div 10) @ [ZERO + n mod 10]"
      by (intro digits_big) simp
    then have "hd (digits n) = hd (digits (n div 10))"
      using digits_not_Nil [of "n div 10"] by simp
    moreover have "0 < n div 10" using False by simp
    ultimately show ?thesis using "1.IH" [OF False] by simp
  qed
qed

lemma pad2: "n < 100 \<Longrightarrow> padStart (digits n) 2 ZERO = [ZERO + n div 10, ZERO + n mod 10]"
proof (cases "n < 10")
  case True
  then show ?thesis by (simp add: digits_small padStart_def)
next
  case False
  assume "n < 100"
  then have "n div 10 < 10" by simp
  then have "digits (n div 10) = [ZERO + n div 10]" by (rule digits_small)
  moreover have "digits n = digits (n div 10) @ [ZERO + n mod 10]"
    using False by (intro digits_big) simp
  ultimately show ?thesis by (simp add: padStart_def)
qed

lemma getRocDate_shape:
  assumes "valid_date d"
  shows "getRocDate d = String_int (era_year d) @
           [SLASH, ZERO + nat (getMonth d + 1) div 10, ZERO + nat (getMonth d + 1) mod 10,
            SLASH, ZERO + nat (getDate d) div 10, ZERO + nat (getDate d) mod 10]"
proof -
  have m: "String_int (getMonth d + 1) = digits (nat (getMonth d + 1))" "nat (getMonth d + 1) < 100"
    using assms by (auto simp: valid_date_def String_int_def)
  have dd: "String_int (getDate d) = digits (nat (getDate d))" "nat (getDate d) < 100"
    using assms by (auto simp: valid_date_def String_int_def)
  show ?thesis
    by (simp add: getRocDate_def Let_def era_year_def m(1) dd(1) pad2 [OF m(2)] pad2 [OF dd(2)])
qed

lemma getRocDate_less:
  assumes "valid_date a" "valid_date b" "earlier a b" "1911 \<le> getFullYear a"
    "decimal_digits (era_year a) = decimal_digits (era_year b)"
  shows "getRocDate a < getRocDate b"
proof -
  have ea: "0 \<le> era_year a" using assms(4) by (simp add: era_year_def)
  have le: "era_year a \<le> era_year b" using assms(3) by (auto simp: earlier_def era_year_def)
  then have eb: "0 \<le> era_year b" using ea by simp
  have sa: "String_int (era_year a) = digits (nat (era_year a))"
    and sb: "String_int (era_year b) = digits (nat (era_year b))"
    using ea eb by (simp_all add: String_int_def)
  have len: "length (digits (nat (era_year a))) = length (digits (nat (era_year b)))"
    using assms(5) ea eb by (simp add: decimal_digits_def)
  let ?ma = "nat (getMonth a + 1)" and ?mb = "nat (getMonth b + 1)"
  let ?da = "nat (getDate a)" and ?db = "nat (getDate b)"
  show ?thesis
  proof (cases "era_year a < era_year b")
    case True
    then have "digits (nat (era_year a)) < digits (nat (era_year b))"
      using ea len by (intro digits_less) simp_all
    then show ?thesis
      unfolding getRocDate_shape [OF assms(1)] getRocDate_shape [OF assms(2)] sa sb
      using len by (rule less_append_eq_length [rotated])
  next
    case False
    then have eq: "era_year a = era_year b" using le by simp
    then have "getMonth a < getMonth b \<or> (getMonth a = getMonth b \<and> getDate a < getDate b)"
      using assms(3) by (auto simp: earlier_def era_year_def)
    then show ?thesis
    proof
      assume "getMonth a < getMonth b"
      then have "?ma < ?mb" using assms(1,2) by (auto simp: valid_date_def)
      then have "?ma div 10 < ?mb div 10 \<or> (?ma div 10 = ?mb div 10 \<and> ?ma mod 10 < ?mb mod 10)"
        by (rule div10_cases)
      then show ?thesis
        unfolding getRocDate_shape [OF assms(1)] getRocDate_shape [OF assms(2)] eq less_append_same
        by auto
    next
      assume md: "getMonth a = getMonth b \<and> getDate a < getDate b"
      then have "?da < ?db" using assms(1,2) by (auto simp: valid_date_def)
      then have "?da div 10 < ?db div 10 \<or> (?da div 10 = ?db div 10 \<and> ?da mod 10 < ?db mod 10)"
        by (rule div10_cases)
      then show ?thesis
        unfolding getRocDate_shape [OF assms(1)] getRocDate_shape [OF assms(2)] eq less_append_same
        using md by auto
    qed
  qed
qed

lemma sortedDates_unique:
  assumes "sorted_wrt (\<lambda>x y. y < x) ks" "distinct (Map_keys m)" "set (Map_keys m) = set ks"
  shows "sortedDates m = ks"
proof -
  have "sorted_wrt (<) (rev ks)" using assms(1) by (simp add: sorted_wrt_rev)
  then have "sorted (rev ks)" "distinct (rev ks)" by (simp_all add: strict_sorted_iff)
  moreover have "sorted (sort (Map_keys m))" "distinct (sort (Map_keys m))"
    using assms(2) by simp_all
  moreover have "set (sort (Map_keys m)) = set (rev ks)" using assms(3) by simp
  ultimately have "sort (Map_keys m) = rev ks" by (metis sorted_distinct_set_unique)
  then show ?thesis by (simp add: sortedDates_def)
qed

text \<open>
  Claim C10. For a date with a month of 0 to 11 and a day of 1 to 31, the key is the era
  year in plain decimal (no leading zero), a slash, the month in two digits, a slash and
  the day in two digits. For two such dates of the era (Gregorian year 1911 or later, so
  the era year is not negative) whose era years have the same number of digits, the later
  date has the greater key. Hence, for a map whose keys are the keys of such dates, the
  sorted and reversed keys are the dates in descending chronological order.
\<close>

theorem C10_roc_keys_follow_dates:
  "(valid_date a \<longrightarrow>
      getRocDate a = String_int (era_year a) @
         [SLASH, ZERO + nat (getMonth a + 1) div 10, ZERO + nat (getMonth a + 1) mod 10,
          SLASH, ZERO + nat (getDate a) div 10, ZERO + nat (getDate a) mod 10] \<and>
      (0 < era_year a \<longrightarrow> hd (String_int (era_year a)) \<noteq> ZERO)) \<and>
   (valid_date a \<and> valid_date b \<and> earlier a b \<and> 1911 \<le> getFullYear a \<and>
    decimal_digits (era_year a) = decimal_digits (era_year b) \<longrightarrow>
      getRocDate a < getRocDate b) \<and>
   ((\<forall>d \<in> set ds. valid_date d \<and> 1911 \<le> getFullYear d \<and> decimal_digits (era_year d) = n) \<and>
    sorted_wrt (\<lambda>x y. earlier y x) ds \<and>
    distinct (Map_keys m) \<and> set (Map_keys m) = getRocDate ` set ds \<longrightarrow>
      sortedDates m = map getRocDate ds)"
proof (intro conjI impI)
  assume "valid_date a"
  then show "getRocDate a = String_int (era_year a) @
         [SLASH, ZERO + nat (getMonth a + 1) div 10, ZERO + nat (getMonth a + 1) mod 10,
          SLASH, ZERO + nat (getDate a) div 10, ZERO + nat (getDate a) mod 10]"
    by (rule getRocDate_shape)
next
  assume "0 < era_year a"
  then show "hd (String_int (era_year a)) \<noteq> ZERO"
    using hd_digits [of "nat (era_year a)"] by (simp add: String_int_def)
next
  assume "valid_date a \<and> valid_date b \<and> earlier a b \<and> 1911 \<le> getFullYear a \<and>
    decimal_digits (era_year a) = decimal_digits (era_year b)"
  then show "getRocDate a < getRocDate b" by (simp add: getRocDate_less)
next
  assume h: "(\<forall>d \<in> set ds. valid_date d \<and> 1911 \<le> getFullYear d \<and> decimal_digits (era_year d) = n) \<and>
    sorted_wrt (\<lambda>x y. earlier y x) ds \<and>
    distinct (Map_keys m) \<and> set (Map_keys m) = getRocDate ` set ds"
  have "sorted_wrt (\<lambda>x y. getRocDate y < getRocDate x) ds"
  proof (rule sorted_wrt_mono_rel [of ds "\<lambda>x y. earlier y x"])
    show "sorted_wrt (\<lambda>x y. earlier y x) ds" using h by simp
  next
    fix x y assume "x \<in> set ds" "y \<in> set ds" "earlier y x"
    then show "getRocDate y < getRocDate x" using h by (intro getRocDate_less) auto
  qed
  then have "sorted_wrt (\<lambda>x y. y < x) (map getRocDate ds)" by (simp add: sorted_wrt_map)
  then show "sortedDates m = map getRocDate ds"
    using h by (intro sortedDates_unique) simp_all
qed

theorem C10_roc_keys_follow_dates_witness:
  "valid_date (Date_of (setDate_back ex_today 29)) \<and> valid_date (Date_of ex_today) \<and>
   earlier (Date_of (setDate_back ex_today 29)) (Date_of ex_today) \<and>
   getRocDate (Date_of (setDate_back ex_today 29)) = js ''113/10/31'' \<and>
   getRocDate (Date_of ex_today) = js ''113/11/29'' \<and>
   getRocDate (Date_of (setDate_back ex_today 29)) < getRocDate (Date_of ex_today) \<and>
   sortedDates ex_days_store = map getRocDate ex_days \<and>
   map getRocDate ex_days = [js ''113/11/29'', js ''113/11/28'', js ''113/10/31'']"
proof -
  let ?a = "Date_of (setDate_back ex_today 29)" and ?b = "Date_of ex_today"
  have 1: "valid_date ?a" "valid_date ?b" "earlier ?a ?b" "1911 \<le> getFullYear ?a"
    "decimal_digits (era_year ?a) = decimal_digits (era_year ?b)"
    by code_simp+
  have 2: "getRocDate ?a = js ''113/10/31''" "getRocDate ?b = js ''113/11/29''"
    by code_simp+
  have 3: "\<forall>d \<in> set ex_days. valid_date d \<and> 1911 \<le> getFullYear d \<and> decimal_digits (era_year d) = 3"
    by code_simp
  have 4: "sorted_wrt (\<lambda>x y. earlier y x) ex_days" by code_simp
  have 5: "distinct (Map_keys ex_days_store)" by code_simp
  have 6: "set (Map_keys ex_days_store) = getRocDate ` set ex_days" by code_simp
  have 7: "map getRocDate ex_days = [js ''113/11/29'', js ''113/11/28'', js ''113/10/31'']"
    by code_simp
  show ?thesis
    using 1 2 3 4 5 6 7 C10_roc_keys_follow_dates [of ?a ?b ex_days 3 ex_days_store]
    by blast
qed


section \<open>Writing the store and reading it back\<close>

lemma split_on_not_Nil: "split_on sep s \<noteq> []"
  by (induction s) (auto split: list.splits)

lemma split_on_line:
  "sep \<notin> set l \<Longrightarrow> split_on sep (l @ sep # rest) = l # split_on sep rest"
  by (induction l) (auto split: list.splits)

lemma split_on_lines:
  "\<forall>l \<in> set ls. sep \<notin> set l \<Longrightarrow>
   split_on sep (concat (map (\<lambda>l. l @ [sep]) ls)) = ls @ [[]]"
  by (induction ls) (simp_all add: split_on_line)

lemma alist_update_absent: "k \<notin> fst ` set m \<Longrightarrow> AList.update k v m = m @ [(k, v)]"
  by (induction m) auto

lemma alist_update_last: "k \<notin> fst ` set m \<Longrightarrow> AList.update k v (m @ [(k, w)]) = m @ [(k, v)]"
  by (induction m) auto

lemma map_of_alist_last: "k \<notin> fst ` set m \<Longrightarrow> map_of (m @ [(k, w)]) k = Some w"
  by (induction m) auto

lemma load_line_good:
  "good_line k l \<Longrightarrow> load_line l m = push_line (ensure_bucket m k) k l"
  by (auto simp: good_line_def load_line_def line_key_def Let_def split: option.splits)

lemma push_line_last:
  "k \<notin> fst ` set m \<Longrightarrow> push_line (m @ [(k, ls0)]) k l = m @ [(k, ls0 @ [l])]"
  by (simp add: push_line_def map_of_alist_last Map_set_def alist_update_last del: map_of_append)

lemma ensure_bucket_last:
  "k \<notin> fst ` set m \<Longrightarrow> ensure_bucket (m @ [(k, ls0)]) k = m @ [(k, ls0)]"
  by (simp add: ensure_bucket_def Map_has_def map_of_alist_last del: map_of_append)

lemma ensure_bucket_new:
  "k \<notin> fst ` set m \<Longrightarrow> ensure_bucket m k = m @ [(k, [])]"
  by (simp add: ensure_bucket_def Map_has_def map_of_eq_None_iff Map_set_def alist_update_absent)

lemma load_line_bucket:
  "k \<notin> fst ` set m \<Longrightarrow> good_line k l \<Longrightarrow>
   load_line l (m @ [(k, ls0)]) = m @ [(k, ls0 @ [l])]"
  by (simp add: load_line_good ensure_bucket_last push_line_last)

lemma load_line_new:
  "k \<notin> fst ` set m \<Longrightarrow> good_line k l \<Longrightarrow> load_line l m = m @ [(k, [l])]"
  using push_line_last [of k m "[]" l] by (simp add: load_line_good ensure_bucket_new)

lemma fold_load_line_bucket:
  "k \<notin> fst ` set m \<Longrightarrow> \<forall>l \<in> set ls. good_line k l \<Longrightarrow>
   fold load_line ls (m @ [(k, ls0)]) = m @ [(k, ls0 @ ls)]"
  by (induction ls arbitrary: ls0) (simp_all add: load_line_bucket)

lemma fold_load_line_new:
  "k \<notin> fst ` set m \<Longrightarrow> \<forall>l \<in> set ls. good_line k l \<Longrightarrow>
   fold load_line ls m = (if ls = [] then m else m @ [(k, ls)])"
proof (cases ls)
  case Nil
  then show ?thesis by simp
next
  case (Cons l ls')
  assume a: "k \<notin> fst ` set m" "\<forall>l \<in> set ls. good_line k l"
  then show ?thesis
    using Cons fold_load_line_bucket [of k m ls' "[l]"] by (simp add: load_line_new)
qed

lemma fold_load_line_buckets:
  "distinct ks \<Longrightarrow> set ks \<inter> fst ` set m = {} \<Longrightarrow>
   \<forall>k \<in> set ks. \<forall>l \<in> set (g k). good_line k l \<Longrightarrow>
   fold load_line (concat (map g ks)) m =
     m @ map (\<lambda>k. (k, g k)) (filter (\<lambda>k. g k \<noteq> []) ks)"
proof (induction ks arbitrary: m)
  case Nil
  show ?case by simp
next
  case (Cons k ks)
  let ?m1 = "if g k = [] then m else m @ [(k, g k)]"
  have 1: "fold load_line (g k) m = ?m1"
    using Cons.prems by (intro fold_load_line_new) auto
  have 2: "set ks \<inter> fst ` set ?m1 = {}" using Cons.prems by auto
  have "fold load_line (concat (map g (k # ks))) m = fold load_line (concat (map g ks)) ?m1"
    by (simp add: 1)
  also have "\<dots> = ?m1 @ map (\<lambda>k. (k, g k)) (filter (\<lambda>k. g k \<noteq> []) ks)"
    using Cons.prems 2 by (intro Cons.IH) auto
  finally show ?case by simp
qed

lemma Map_get_good:
  "keyed_store S \<Longrightarrow> l \<in> set (Map_get S k) \<Longrightarrow> good_line k l"
proof -
  assume S: "keyed_store S" and l: "l \<in> set (Map_get S k)"
  then obtain ls where ls: "map_of S k = Some ls" "l \<in> set ls"
    by (cases "map_of S k") (auto simp: Map_get_def)
  then have "(k, ls) \<in> set S" by (simp add: map_of_SomeD)
  then show ?thesis using S ls(2) by (auto simp: keyed_store_def)
qed

lemma good_line_nonblank: "good_line k l \<Longrightarrow> LF \<notin> set l \<and> trim l = l \<and> l \<noteq> []"
  by (auto simp: good_line_def line_key_def)

lemma header_row_facts: "LF \<notin> set header_row \<and> length (trim header_row) > 0"
  by code_simp

lemma trim_Nil: "trim [] = []"
  by (simp add: trim_def)

lemma distinct_sortedDates: "distinct (Map_keys S) \<Longrightarrow> distinct (sortedDates S)"
  by (simp add: sortedDates_def)

lemma load_written:
  assumes "keyed_store S"
  shows "load (Some (concat (map (\<lambda>row. row @ [LF]) (spec_serialize S)))) =
           map (\<lambda>k. (k, Map_get S k)) (filter (\<lambda>k. Map_get S k \<noteq> []) (sortedDates S))"
proof -
  let ?L = "concat (map (Map_get S) (sortedDates S))"
  have good: "\<forall>k \<in> set (sortedDates S). \<forall>l \<in> set (Map_get S k). good_line k l"
    using assms Map_get_good by blast
  have L: "\<forall>l \<in> set ?L. LF \<notin> set l \<and> trim l = l \<and> l \<noteq> []"
    using good good_line_nonblank by fastforce
  have ser: "spec_serialize S = header_row # ?L"
    by (simp add: spec_serialize_def sortedDates_def)
  have "\<forall>l \<in> set (header_row # ?L). LF \<notin> set l"
    using L header_row_facts by simp
  then have sp: "split_on LF (concat (map (\<lambda>row. row @ [LF]) (header_row # ?L))) = (header_row # ?L) @ [[]]"
    by (rule split_on_lines)
  have fl: "filter (\<lambda>l. length (trim l) > 0) ?L = ?L"
    using L by (intro filter_True) auto
  have flt: "filter (\<lambda>l. length (trim l) > 0) ((header_row # ?L) @ [[]]) = header_row # ?L"
    using header_row_facts fl by (simp add: trim_Nil)
  have "load (Some (concat (map (\<lambda>row. row @ [LF]) (spec_serialize S)))) =
        fold load_line (drop 1 (filter (\<lambda>l. length (trim l) > 0)
          (split_on LF (concat (map (\<lambda>row. row @ [LF]) (header_row # ?L)))))) []"
    by (simp only: load_def ser option.case Let_def)
  also have "\<dots> = fold load_line (drop 1 (filter (\<lambda>l. length (trim l) > 0) ((header_row # ?L) @ [[]]))) []"
    by (simp only: sp)
  also have "\<dots> = fold load_line (drop 1 (header_row # ?L)) []"
    by (simp only: flt)
  also have "\<dots> = fold load_line ?L []"
    by simp
  also have "\<dots> = [] @ map (\<lambda>k. (k, Map_get S k)) (filter (\<lambda>k. Map_get S k \<noteq> []) (sortedDates S))"
    using assms good by (intro fold_load_line_buckets) (simp_all add: keyed_store_def distinct_sortedDates)
  finally show ?thesis by simp
qed

lemma concat_map_filter_nonempty:
  "concat (map g (filter (\<lambda>k. g k \<noteq> []) ks)) = concat (map g ks)"
  by (induction ks) simp_all

lemma sorted_desc_sortedDates:
  "distinct (Map_keys S) \<Longrightarrow> sorted_wrt (\<lambda>a b. b < a) (sortedDates S)"
proof -
  assume "distinct (Map_keys S)"
  then have "sorted_wrt (<) (sort (Map_keys S))" by (simp add: strict_sorted_iff)
  then show ?thesis by (simp add: sortedDates_def sorted_wrt_rev)
qed

lemma serialize_reloaded:
  assumes "distinct (Map_keys S)"
  shows "spec_serialize (map (\<lambda>k. (k, Map_get S k)) (filter (\<lambda>k. Map_get S k \<noteq> []) (sortedDates S))) =
           spec_serialize S"
proof -
  let ?ks = "filter (\<lambda>k. Map_get S k \<noteq> []) (sortedDates S)"
  let ?S' = "map (\<lambda>k. (k, Map_get S k)) ?ks"
  have keys: "Map_keys ?S' = ?ks" by (simp add: Map_keys_def comp_def)
  have desc: "sorted_wrt (\<lambda>a b. b < a) ?ks"
    using sorted_desc_sortedDates [OF assms] by (rule sorted_wrt_filter)
  then have "sorted_wrt (<) (rev ?ks)" by (simp add: sorted_wrt_rev)
  then have "distinct (rev ?ks)" by (simp add: strict_sorted_iff)
  then have dist: "distinct (Map_keys ?S')" unfolding keys by simp
  have sd: "sortedDates ?S' = ?ks"
    using desc dist keys by (intro sortedDates_unique) simp_all
  have get: "Map_get ?S' k = Map_get S k" if "k \<in> set ?ks" for k
    using that by (simp add: Map_get_def map_of_map_restrict)
  have "concat (map (Map_get ?S') ?ks) = concat (map (Map_get S) ?ks)"
    using get by (intro arg_cong [of _ _ concat] map_cong) simp_all
  also have "\<dots> = concat (map (Map_get S) (sortedDates S))"
    by (rule concat_map_filter_nonempty)
  finally have "concat (map (Map_get ?S') (sortedDates ?S')) = concat (map (Map_get S) (sortedDates S))"
    unfolding sd .
  then show ?thesis by (simp add: spec_serialize_def sortedDates_def)
qed

lemma trim_prefix: "\<exists>w. dropWhile isWhiteSpace s = trim s @ w"
proof -
  let ?u = "dropWhile isWhiteSpace s"
  have "?u = rev (dropWhile isWhiteSpace (rev ?u)) @ rev (takeWhile isWhiteSpace (rev ?u))"
    by (metis rev_append rev_rev_ident takeWhile_dropWhile_id)
  then have "?u = trim s @ rev (takeWhile isWhiteSpace (rev ?u))"
    by (simp only: trim_def)
  then show ?thesis by blast
qed

lemma trim_idem: "trim (trim s) = trim s"
proof (cases "trim s = []")
  case True
  show ?thesis by (simp only: True) (simp add: trim_def)
next
  case False
  let ?u = "dropWhile isWhiteSpace s"
  obtain w where w: "?u = trim s @ w" using trim_prefix by blast
  then have "?u \<noteq> []" using False by simp
  then have "\<not> isWhiteSpace (hd ?u)" by (rule hd_dropWhile)
  moreover have "hd ?u = hd (trim s)" using w False by simp
  ultimately have 1: "dropWhile isWhiteSpace (trim s) = trim s"
    using False by (cases "trim s") simp_all
  have 2: "rev (trim s) = dropWhile isWhiteSpace (rev ?u)" by (simp add: trim_def)
  have "trim (trim s) = rev (dropWhile isWhiteSpace (rev (dropWhile isWhiteSpace (trim s))))"
    by (rule trim_def)
  also have "\<dots> = rev (dropWhile isWhiteSpace (rev (trim s)))"
    by (simp only: 1)
  also have "\<dots> = rev (dropWhile isWhiteSpace (dropWhile isWhiteSpace (rev ?u)))"
    by (simp only: 2)
  also have "\<dots> = rev (dropWhile isWhiteSpace (rev ?u))"
    by (simp only: dropWhile_idem)
  also have "\<dots> = trim s"
    by (simp only: trim_def)
  finally show ?thesis .
qed

lemma set_trim: "set (trim s) \<subseteq> set s"
proof -
  have "set (trim s) = set (dropWhile isWhiteSpace (rev (dropWhile isWhiteSpace s)))"
    by (simp add: trim_def)
  also have "\<dots> \<subseteq> set (rev (dropWhile isWhiteSpace s))" by (rule set_dropWhileD [THEN subsetI])
  also have "\<dots> \<subseteq> set s" using set_dropWhileD by fastforce
  finally show ?thesis .
qed

lemma split_on_no_sep: "l \<in> set (split_on sep s) \<Longrightarrow> sep \<notin> set l"
proof (induction s arbitrary: l)
  case Nil
  then show ?case by simp
next
  case (Cons c s)
  show ?case
  proof (cases "c = sep")
    case True
    then show ?thesis using Cons by auto
  next
    case False
    obtain x xs where x: "split_on sep s = x # xs"
      using split_on_not_Nil [of sep s] by (cases "split_on sep s") auto
    then have "l = c # x \<or> l \<in> set xs" using Cons.prems False by simp
    then show ?thesis using Cons.IH x False by auto
  qed
qed

lemma in_set_alist_update:
  "p \<in> set (AList.update k v m) \<Longrightarrow> p = (k, v) \<or> p \<in> set m"
  by (induction m) (auto split: if_splits)

lemma keyed_store_load_line:
  assumes "keyed_store m" "LF \<notin> set l"
  shows "keyed_store (load_line l m)"
proof (cases "indexOf (trim l) COMMA")
  case None
  then show ?thesis using assms(1) by (simp add: load_line_def)
next
  case (Some i)
  let ?line = "trim l"
  let ?k = "filter (\<lambda>c. c \<noteq> SQUOTE \<and> c \<noteq> DQUOTE) (take i ?line)"
  have g: "good_line ?k ?line"
    using Some assms(2) set_trim [of l] by (auto simp: good_line_def line_key_def trim_idem)
  have eq: "load_line l m = push_line (ensure_bucket m ?k) ?k ?line"
    using Some by (simp add: load_line_def Let_def)
  let ?m1 = "ensure_bucket m ?k"
  have m1: "keyed_store ?m1"
    using assms(1)
    by (auto simp: keyed_store_def ensure_bucket_def Map_set_def Map_keys_def distinct_update
        dest!: in_set_alist_update)
  obtain ls where ls: "map_of ?m1 ?k = Some ls"
    using Map_has_ensure_bucket [of m ?k ?k] by (auto simp: Map_has_def)
  then have in1: "(?k, ls) \<in> set ?m1" by (rule map_of_SomeD)
  have old: "\<forall>l' \<in> set ls. good_line ?k l'"
    using m1 in1 by (fastforce simp: keyed_store_def)
  have "keyed_store (AList.update ?k (ls @ [?line]) ?m1)"
    unfolding keyed_store_def
  proof (intro conjI ballI)
    show "distinct (Map_keys (AList.update ?k (ls @ [?line]) ?m1))"
      using m1 by (simp add: keyed_store_def Map_keys_def distinct_update)
  next
    fix p assume "p \<in> set (AList.update ?k (ls @ [?line]) ?m1)"
    then have "p = (?k, ls @ [?line]) \<or> p \<in> set ?m1"
      by (rule in_set_alist_update)
    then show "case p of (k, ls) \<Rightarrow> \<forall>l \<in> set ls. good_line k l"
      using m1 old g by (auto simp: keyed_store_def)
  qed
  then show ?thesis using ls by (simp add: eq push_line_def Map_set_def)
qed

lemma keyed_store_fold_load_line:
  "keyed_store m \<Longrightarrow> \<forall>l \<in> set ls. LF \<notin> set l \<Longrightarrow> keyed_store (fold load_line ls m)"
  by (induction ls arbitrary: m) (simp_all add: keyed_store_load_line)

lemma keyed_store_load: "keyed_store (load file)"
proof (cases "file")
  case None
  then show ?thesis by (simp add: load_def keyed_store_def Map_keys_def)
next
  case (Some content)
  have "\<forall>l \<in> set (drop 1 (filter (\<lambda>l. length (trim l) > 0) (split_on LF content))). LF \<notin> set l"
    using split_on_no_sep by (auto dest!: in_set_dropD)
  moreover have "keyed_store []" by (simp add: keyed_store_def Map_keys_def)
  ultimately show ?thesis using Some by (simp add: load_def keyed_store_fold_load_line)
qed

text \<open>
  Where the lines of a store are keyed by their first field, writing the store, reading
  the file back and writing again gives the same file; every store read from a file is
  such a store.
\<close>

lemma roundtrip_of_keyed_stores:
  "keyed_store (load old) \<and>
   (keyed_store S \<longrightarrow>
      output_file (sort_and_write (load (output_file (sort_and_write S f))) f') =
      output_file (sort_and_write S f))"
proof (intro conjI impI)
  show "keyed_store (load old)" by (rule keyed_store_load)
next
  assume S: "keyed_store S"
  then have d: "distinct (Map_keys S)" by (simp add: keyed_store_def)
  show "output_file (sort_and_write (load (output_file (sort_and_write S f))) f') =
      output_file (sort_and_write S f)"
    by (simp add: sort_and_write_serialize load_written [OF S] serialize_reloaded [OF d])
qed

section \<open>C6: a failed unit\<close>


subsection \<open>Trimming and the lines of a merge\<close>















subsection \<open>A merge of clean rows reads as lines\<close>







subsection \<open>Date keys, extracted rows and the store through the loop\<close>



















subsection \<open>Every day of the window is in the store or queried\<close>


lemma covered_of_lists:
  assumes "map form_txtDate rs = replicate (length mks) d" "map form_Market rs = map m_val mks"
    "mk \<in> set mks"
  shows "\<exists>r \<in> set rs. form_txtDate r = d \<and> form_Market r = m_val mk"
proof -
  obtain i where i: "i < length mks" "mks ! i = mk"
    using assms(3) by (auto simp: in_set_conv_nth)
  have l: "length rs = length mks" using assms(2) by (metis length_map)
  have "form_Market (rs ! i) = m_val mk" using i l assms(2) by (metis nth_map)
  moreover have "form_txtDate (rs ! i) = d" using i l assms(1) by (metis nth_map nth_replicate)
  moreover have "rs ! i \<in> set rs" using i l by simp
  ultimately show ?thesis by blast
qed

lemma requests_visit:
  "\<exists>rs. requests (visit post mks t st) = requests st @ rs \<and>
        (Map_has (dataMap st) (getRocDate (Date_of t)) \<or>
         (\<forall>mk \<in> set mks. \<exists>r \<in> set rs.
            form_txtDate r = getRocDate (Date_of t) \<and> form_Market r = m_val mk))"
proof (cases "Map_has (dataMap st) (getRocDate (Date_of t))")
  case True
  then show ?thesis by (simp add: visit_def)
next
  case False
  obtain rs where rs: "requests (fold (query_market post (getRocDate (Date_of t))) mks st) = requests st @ rs"
    "map form_txtDate rs = replicate (length mks) (getRocDate (Date_of t))"
    "map form_Market rs = map m_val mks"
    using requests_fold_query_market by blast
  show ?thesis
    using False rs(1) covered_of_lists [OF rs(2,3)] by (intro exI [of _ rs]) (simp add: visit_def)
qed

lemma Map_has_visit:
  "Map_has (dataMap (visit post mks t st)) k \<Longrightarrow>
   Map_has (dataMap st) k \<or> (k = getRocDate (Date_of t) \<and> \<not> Map_has (dataMap st) k)"
  using Map_has_fold_query_market [of post "getRocDate (Date_of t)" mks st k]
  by (auto simp: visit_def split: if_splits)

lemma requests_fold_visit:
  "\<exists>rs. requests (fold (visit post mks) ts st) = requests st @ rs"
proof (induction ts arbitrary: st)
  case Nil
  show ?case by simp
next
  case (Cons t ts)
  obtain rs0 where "requests (visit post mks t st) = requests st @ rs0"
    using requests_visit by blast
  moreover obtain rs1 where "requests (fold (visit post mks) ts (visit post mks t st)) =
      requests (visit post mks t st) @ rs1"
    using Cons by blast
  ultimately show ?case by simp
qed

lemma new_key_covered:
  "Map_has (dataMap (fold (visit post mks) ts st)) k \<Longrightarrow>
   Map_has (dataMap st) k \<or>
   (\<forall>mk \<in> set mks. \<exists>r \<in> set (drop (length (requests st)) (requests (fold (visit post mks) ts st))).
      form_txtDate r = k \<and> form_Market r = m_val mk)"
proof (induction ts arbitrary: st)
  case Nil
  then show ?case by simp
next
  case (Cons t ts)
  let ?st1 = "visit post mks t st"
  let ?fin = "fold (visit post mks) ts ?st1"
  obtain rs0 where rs0: "requests ?st1 = requests st @ rs0"
    "Map_has (dataMap st) (getRocDate (Date_of t)) \<or>
     (\<forall>mk \<in> set mks. \<exists>r \<in> set rs0. form_txtDate r = getRocDate (Date_of t) \<and> form_Market r = m_val mk)"
    using requests_visit by blast
  obtain rs1 where rs1: "requests ?fin = requests ?st1 @ rs1"
    using requests_fold_visit by blast
  have d0: "drop (length (requests st)) (requests ?fin) = rs0 @ rs1" by (simp add: rs0(1) rs1)
  have d1: "drop (length (requests ?st1)) (requests ?fin) = rs1" by (simp add: rs1)
  have fin: "Map_has (dataMap ?fin) k" using Cons.prems by simp
  from Cons.IH [OF fin] show ?case
  proof
    assume "Map_has (dataMap ?st1) k"
    from Map_has_visit [OF this] show ?thesis
    proof
      assume "Map_has (dataMap st) k"
      then show ?thesis by simp
    next
      assume a: "k = getRocDate (Date_of t) \<and> \<not> Map_has (dataMap st) k"
      then have "\<forall>mk \<in> set mks. \<exists>r \<in> set rs0. form_txtDate r = k \<and> form_Market r = m_val mk"
        using rs0(2) by blast
      then have "\<forall>mk \<in> set mks. \<exists>r \<in> set (rs0 @ rs1). form_txtDate r = k \<and> form_Market r = m_val mk"
        by fastforce
      then show ?thesis unfolding fold_simps d0 by simp
    qed
  next
    assume "\<forall>mk \<in> set mks. \<exists>r \<in> set (drop (length (requests ?st1)) (requests ?fin)).
      form_txtDate r = k \<and> form_Market r = m_val mk"
    then have "\<forall>mk \<in> set mks. \<exists>r \<in> set (rs0 @ rs1). form_txtDate r = k \<and> form_Market r = m_val mk"
      unfolding d1 by fastforce
    then show ?thesis unfolding fold_simps d0 by simp
  qed
qed



subsection \<open>Which dates a run completes\<close>











subsection \<open>The claim\<close>






section \<open>C7: writing, reading and writing again\<close>

text \<open>
  Claim C7: for every store, writing it, reading the file back and writing again gives
  the same rows in the same order. The crawler breaks this on a store it builds itself.
  A cell that holds a line feed is quoted by the CSV writer, and the merge splits the
  record at the line feed into two lines of the bucket 113/11/29. Read back, the second
  line is keyed by its own first field \<open>b\<close>, which sorts above the date, so the second write
  puts it first. The same happens over two runs: the first run stores the answer, the
  second run gets no answer at all and still writes a different file.
\<close>

theorem C7_line_feed_cell_is_torn:
  "absorb [] ex_key (extract_rows ex_key (js ''M'') [ex_tds_nl]) =
     [(ex_key, [js ''113/11/29,M,FV001,'' @ [DQUOTE] @ js ''a'',
                js ''b'' @ [DQUOTE] @ js '',v,100,90,80,88,5''])] \<and>
   output_file (sort_and_write (absorb [] ex_key (extract_rows ex_key (js ''M'') [ex_tds_nl])) no_file_fs) =
     Some (js ''Date,Market,Code,Name,Variety,High,Mid,Low,Avg,Volume'' @ [LF] @
           js ''113/11/29,M,FV001,'' @ [DQUOTE] @ js ''a'' @ [LF] @
           js ''b'' @ [DQUOTE] @ js '',v,100,90,80,88,5'' @ [LF]) \<and>
   output_file (sort_and_write (load (output_file (sort_and_write
       (absorb [] ex_key (extract_rows ex_key (js ''M'') [ex_tds_nl])) no_file_fs))) no_file_fs) =
     Some (js ''Date,Market,Code,Name,Variety,High,Mid,Low,Avg,Volume'' @ [LF] @
           js ''b'' @ [DQUOTE] @ js '',v,100,90,80,88,5'' @ [LF] @
           js ''113/11/29,M,FV001,'' @ [DQUOTE] @ js ''a'' @ [LF]) \<and>
   output_file (sort_and_write (load (output_file (sort_and_write
       (absorb [] ex_key (extract_rows ex_key (js ''M'') [ex_tds_nl])) no_file_fs))) no_file_fs) \<noteq>
   output_file (sort_and_write
       (absorb [] ex_key (extract_rows ex_key (js ''M'') [ex_tds_nl])) no_file_fs) \<and>
   output_file (fst (main no_file_fs ex_today ex_today (Some ex_landing) first_only_nl_server)) =
     Some (js ''Date,Market,Code,Name,Variety,High,Mid,Low,Avg,Volume'' @ [LF] @
           js ''113/11/29,'' @ m_txt ex_market @ js '',FV001,'' @ [DQUOTE] @ js ''a'' @ [LF] @
           js ''b'' @ [DQUOTE] @ js '',v,100,90,80,88,5'' @ [LF]) \<and>
   output_file (fst (main
       (fst (main no_file_fs ex_today ex_today (Some ex_landing) first_only_nl_server))
       ex_today ex_today (Some ex_landing) dead_server)) =
     Some (js ''Date,Market,Code,Name,Variety,High,Mid,Low,Avg,Volume'' @ [LF] @
           js ''b'' @ [DQUOTE] @ js '',v,100,90,80,88,5'' @ [LF] @
           js ''113/11/29,'' @ m_txt ex_market @ js '',FV001,'' @ [DQUOTE] @ js ''a'' @ [LF])"
  by code_simp

end
